theory Spec2Isabelle
  imports Complex_Main "HOL-Library.Word"
begin

unbundle bit_operations_syntax

section \<open>Exceptions\<close>

text \<open>
  The exceptions that can leave the two components, as values.  The first three are
  Python \<^verbatim>\<open>ValueError\<close>s: the one \<^verbatim>\<open>fetch_events\<close> raises for an endpoint
  that is not in the path map, the one \<^verbatim>\<open>int()\<close> raises on a string that is not an
  integer literal, and the one \<^verbatim>\<open>time.sleep\<close> raises on a negative length.
  \<open>HTTPError\<close> is what \<^verbatim>\<open>raise_for_status\<close> raises.  \<open>EnvError\<close> stands for any other
  \<^verbatim>\<open>Exception\<close> that the environment raises (the storage client, the event iterator, the
  serialiser), identified by a message.
\<close>

datatype exn =
    UnsupportedEndpoint string
  | InvalidIntLiteral string
  | NegativeSleep int
  | HTTPError int
  | EnvError string

fun is_ValueError :: "exn \<Rightarrow> bool" where
  "is_ValueError (UnsupportedEndpoint _) = True"
| "is_ValueError (InvalidIntLiteral _) = True"
| "is_ValueError (NegativeSleep _) = True"
| "is_ValueError _ = False"

section \<open>Strings\<close>

text \<open>\<^verbatim>\<open>s.rstrip("/")\<close>: the string without its trailing slashes.\<close>

definition rstrip_slash :: "string \<Rightarrow> string" where
  "rstrip_slash s = rev (dropWhile (\<lambda>c. c = CHR ''/'') (rev s))"

text \<open>
  \<^verbatim>\<open>int(s)\<close> on a string, for ASCII input: surrounding whitespace (the characters 9 to
  13 and the blank, 32) is dropped, one sign is allowed, and the rest is a non-empty run
  of decimal digits in which single underscores may separate digits.  Anything else
  raises \<^verbatim>\<open>ValueError\<close>.
\<close>

definition is_space :: "char \<Rightarrow> bool" where
  "is_space c = (let n = (of_char c :: nat) in (9 \<le> n \<and> n \<le> 13) \<or> n = 32)"

definition is_digit :: "char \<Rightarrow> bool" where
  "is_digit c = (let n = (of_char c :: nat) in 48 \<le> n \<and> n \<le> 57)"

definition digit_val :: "char \<Rightarrow> int" where
  "digit_val c = int (of_char c) - 48"

definition strip :: "string \<Rightarrow> string" where
  "strip s = rev (dropWhile is_space (rev (dropWhile is_space s)))"

fun digits_tl :: "string \<Rightarrow> int \<Rightarrow> int option" where
  "digits_tl [] acc = Some acc"
| "digits_tl (c # cs) acc =
     (if is_digit c then digits_tl cs (10 * acc + digit_val c)
      else if c = CHR ''_'' then
        (case cs of
           [] \<Rightarrow> None
         | d # ds \<Rightarrow> if is_digit d then digits_tl ds (10 * acc + digit_val d) else None)
      else None)"

fun digits :: "string \<Rightarrow> int option" where
  "digits [] = None"
| "digits (c # cs) = (if is_digit c then digits_tl cs (digit_val c) else None)"

definition py_int :: "string \<Rightarrow> exn + int" where
  "py_int s =
     (let r = (case strip s of
                 [] \<Rightarrow> None
               | c # cs \<Rightarrow>
                   if c = CHR ''-'' then map_option uminus (digits cs)
                   else if c = CHR ''+'' then digits cs
                   else digits (c # cs))
      in case r of None \<Rightarrow> Inl (InvalidIntLiteral s) | Some n \<Rightarrow> Inr n)"

section \<open>The fetch client (netskope\_client.py)\<close>

subsection \<open>Configuration and client\<close>

text \<open>
  The fields of \<^verbatim>\<open>Settings\<close> that \<^verbatim>\<open>fetch_events\<close> reads.  The dictionary
  \<^verbatim>\<open>endpoint_paths\<close> is the list of its items (one per key), looked up with \<open>map_of\<close>.
\<close>

record Settings =
  max_fetch_pages :: int
  max_fetch_duration_seconds :: int
  endpoint_paths :: "(string \<times> string) list"

record NetskopeClient =
  base_url :: string
  index :: string
  settings :: Settings

text \<open>\<^verbatim>\<open>NetskopeClient.__init__\<close>; the token only goes into the session's headers.\<close>

definition NetskopeClient_init :: "string \<Rightarrow> string \<Rightarrow> string \<Rightarrow> Settings \<Rightarrow> NetskopeClient" where
  "NetskopeClient_init api_endpoint token idx st =
     \<lparr>base_url = rstrip_slash api_endpoint, index = idx, settings = st\<rparr>"

subsection \<open>Requests, replies and the trace of a fetch\<close>

text \<open>
  The query parameters of a request: \<^verbatim>\<open>operation\<close> is the start time in epoch seconds on
  the first request and the literal \<^verbatim>\<open>next\<close> afterwards; \<^verbatim>\<open>index\<close> is repeated.
\<close>

datatype operation = Since int | Next

datatype params = Params operation string

text \<open>
  What one call of \<^verbatim>\<open>session.get\<close> does: it raises \<^verbatim>\<open>requests.RequestException\<close>, or it
  returns a response with a status code, headers (the list of the header dictionary's
  items, one per name, the names spelled as the code spells them) and a JSON body.  The
  body is the envelope of the export API: an object whose \<^verbatim>\<open>result\<close>, when present, is an
  array of records and whose \<^verbatim>\<open>wait_time\<close>, when present, is an integer.  Only these two
  keys are read, each with a default when the key is absent.
\<close>

record 'r body =
  result :: "'r list option"
  wait_time :: "int option"

datatype 'r reply =
    RequestException
  | Response int "(string \<times> string) list" "'r body"

text \<open>
  The observable actions of the generator, in the order they happen: a request sent, a
  sleep, a record handed to the consumer.
\<close>

datatype 'r action = Get string params | Sleep int | Yield 'r

text \<open>
  How a run ends.  The replies of the server are given as a finite script, consumed one
  reply per request; when the script is used up and the loop would send another request,
  the run is \<open>Starved\<close>, with the parameters of that request and the page count so far.
\<close>

datatype outcome = Finished | Raised exn | Starved params nat

fun emitted :: "'r action list \<Rightarrow> 'r list" where
  "emitted [] = []"
| "emitted (Yield r # t) = r # emitted t"
| "emitted (_ # t) = emitted t"

fun is_Sleep :: "'r action \<Rightarrow> bool" where
  "is_Sleep (Sleep _) = True"
| "is_Sleep _ = False"

definition prepend :: "'a list \<Rightarrow> 'a list \<times> 'b \<Rightarrow> 'a list \<times> 'b" where
  "prepend xs r = (xs @ fst r, snd r)"

text \<open>\<^verbatim>\<open>int(resp.headers.get("Retry-After", 5))\<close>\<close>

definition retry_after :: "(string \<times> string) list \<Rightarrow> exn + int" where
  "retry_after hdrs =
     (case map_of hdrs ''Retry-After'' of None \<Rightarrow> Inr 5 | Some v \<Rightarrow> py_int v)"

text \<open>\<^verbatim>\<open>resp.raise_for_status()\<close> of the requests library raises for 4xx and 5xx.\<close>

definition raises_for_status :: "int \<Rightarrow> bool" where
  "raises_for_status status = (400 \<le> status \<and> status < 600)"

text \<open>\<^verbatim>\<open>body.get("result", [])\<close> and \<^verbatim>\<open>int(body.get("wait_time", 0))\<close>\<close>

definition events_of_body :: "'r body \<Rightarrow> 'r list" where
  "events_of_body b = (case result b of None \<Rightarrow> [] | Some es \<Rightarrow> es)"

definition wait_time_of_body :: "'r body \<Rightarrow> int" where
  "wait_time_of_body b = (case wait_time b of None \<Rightarrow> 0 | Some w \<Rightarrow> w)"

subsection \<open>The loop of fetch\_events\<close>

text \<open>
  The \<^verbatim>\<open>while True\<close> loop, one iteration per scripted reply.  \<open>clock k\<close> is the value
  of the \<open>k\<close>-th call of \<^verbatim>\<open>time.time()\<close>, as an exact number: call 0 sets
  \<^verbatim>\<open>start_time\<close>, and one call follows each page, so the call after the page that makes
  \<^verbatim>\<open>page_count = k\<close> is call \<open>k\<close>.  The trace is that of a consumer that takes every
  record the generator yields, as \<^verbatim>\<open>write_events\<close> does.
\<close>

fun fetch_loop ::
  "Settings \<Rightarrow> string \<Rightarrow> string \<Rightarrow> (nat \<Rightarrow> real) \<Rightarrow> params \<Rightarrow> nat \<Rightarrow> 'r reply list
     \<Rightarrow> 'r action list \<times> outcome" where
  "fetch_loop st url idx clock ps page_count [] = ([], Starved ps page_count)"
| "fetch_loop st url idx clock ps page_count (RequestException # rs) =
     ([Get url ps], Finished)"
| "fetch_loop st url idx clock ps page_count (Response status hdrs b # rs) =
     (if status = 429 then
        (case retry_after hdrs of
           Inl e \<Rightarrow> ([Get url ps], Raised e)
         | Inr n \<Rightarrow>
             if n < 0 then ([Get url ps], Raised (NegativeSleep n))
             else prepend [Get url ps, Sleep n]
                    (fetch_loop st url idx clock ps page_count rs))
      else if raises_for_status status then ([Get url ps], Raised (HTTPError status))
      else
        (let events = events_of_body b;
             wt = wait_time_of_body b;
             page_count' = page_count + 1;
             elapsed = clock page_count' - clock 0
         in if events = [] \<and> wt = 0 then (Get url ps # map Yield events, Finished)
            else if int page_count' \<ge> max_fetch_pages st
              then (Get url ps # map Yield events, Finished)
            else if elapsed \<ge> real_of_int (max_fetch_duration_seconds st)
              then (Get url ps # map Yield events, Finished)
            else prepend (Get url ps # map Yield events @ (if wt > 0 then [Sleep wt] else []))
                   (fetch_loop st url idx clock (Params Next idx) page_count' rs)))"

text \<open>
  \<^verbatim>\<open>fetch_events\<close>.  \<open>since\<close> is the start time already converted to epoch seconds
  (\<^verbatim>\<open>int(since.replace(tzinfo=timezone.utc).timestamp())\<close>).
\<close>

definition fetch_events ::
  "NetskopeClient \<Rightarrow> (nat \<Rightarrow> real) \<Rightarrow> string \<Rightarrow> int \<Rightarrow> 'r reply list
     \<Rightarrow> 'r action list \<times> outcome" where
  "fetch_events c clock endpoint since script =
     (case map_of (endpoint_paths (settings c)) endpoint of
        None \<Rightarrow> ([], Raised (UnsupportedEndpoint endpoint))
      | Some path \<Rightarrow>
          fetch_loop (settings c) (base_url c @ path) (index c) clock
            (Params (Since since) (index c)) 0 script)"

text \<open>The records a reply contributes: those of a page, none otherwise.\<close>

fun events_of :: "'r reply \<Rightarrow> 'r list" where
  "events_of RequestException = []"
| "events_of (Response status hdrs b) =
     (if status = 429 \<or> raises_for_status status then [] else events_of_body b)"

fun is_page :: "'r reply \<Rightarrow> bool" where
  "is_page RequestException = False"
| "is_page (Response status hdrs b) = (status \<noteq> 429 \<and> \<not> raises_for_status status)"

subsection \<open>Notions used to state the properties of a fetch\<close>

text \<open>
  The number of seconds that a \<^verbatim>\<open>Retry-After\<close> header in its delay form denotes: the
  header is a non-empty run of decimal digits, read in base ten.
\<close>

definition digits_value :: "string \<Rightarrow> int" where
  "digits_value v = foldl (\<lambda>a c. 10 * a + digit_val c) 0 v"

text \<open>
  The layout the specification asks of the trace: for each page in turn, the request and
  then the page's records, the first request carrying the start time and every later one
  the continuation token.
\<close>

fun page_by_page :: "string \<Rightarrow> string \<Rightarrow> params \<Rightarrow> 'r reply list \<Rightarrow> 'r action list" where
  "page_by_page url idx q [] = []"
| "page_by_page url idx q (r # rs) =
     Get url q # map Yield (events_of r) @ page_by_page url idx (Params Next idx) rs"

text \<open>
  The three termination conditions checked after a page, \<open>k\<close> being the page count
  including that page.
\<close>

definition page_stops :: "Settings \<Rightarrow> (nat \<Rightarrow> real) \<Rightarrow> nat \<Rightarrow> 'r reply \<Rightarrow> bool" where
  "page_stops st clock k r =
     ((case r of RequestException \<Rightarrow> True
       | Response status hdrs b \<Rightarrow> events_of_body b = [] \<and> wait_time_of_body b = 0)
      \<or> int k \<ge> max_fetch_pages st
      \<or> clock k - clock 0 \<ge> real_of_int (max_fetch_duration_seconds st))"

subsection \<open>Fixtures of tests/test\_units.py\<close>

text \<open>
  \<^verbatim>\<open>make_settings\<close> and \<^verbatim>\<open>make_client\<close> of the unit tests, with the two limits as
  arguments; the clock that \<^verbatim>\<open>test_fetch_max_duration_limit\<close> patches in; and a
  \<^verbatim>\<open>DummyResponse(200, {"result": es, "wait_time": w})\<close>.
\<close>

definition make_settings :: "int \<Rightarrow> int \<Rightarrow> Settings" where
  "make_settings max_pages max_duration =
     \<lparr>max_fetch_pages = max_pages, max_fetch_duration_seconds = max_duration,
      endpoint_paths = [(''application'', ''/dummy-path'')]\<rparr>"

definition make_client :: "int \<Rightarrow> int \<Rightarrow> NetskopeClient" where
  "make_client max_pages max_duration =
     NetskopeClient_init ''http://mock'' ''dummy'' ''demo'' (make_settings max_pages max_duration)"

definition frozen_clock :: "nat \<Rightarrow> real" where
  "frozen_clock k = 0"

definition page :: "'r list \<Rightarrow> int \<Rightarrow> 'r reply" where
  "page es w = Response 200 [] \<lparr>result = Some es, wait_time = Some w\<rparr>"

section \<open>The streaming uploader (s3\_writer.py)\<close>

subsection \<open>Bytes and the checksum\<close>

type_synonym byte = "8 word"

text \<open>
  \<^verbatim>\<open>str.encode()\<close>.  A \<open>string\<close> is the sequence of the UTF-8 bytes of the Python
  string, so encoding reads each character as its byte.
\<close>

definition encode :: "string \<Rightarrow> byte list" where
  "encode s = map of_char s"

text \<open>
  \<^verbatim>\<open>zlib.crc32\<close>: the CRC-32 of ISO 3309, bit by bit, with the reflected polynomial
  \<open>0xEDB88320\<close>, the register preset to all ones and complemented at the end.
\<close>

definition crc32_bit :: "32 word \<Rightarrow> 32 word" where
  "crc32_bit c = (if bit c 0 then drop_bit 1 c XOR 0xEDB88320 else drop_bit 1 c)"

definition crc32_update :: "32 word \<Rightarrow> byte \<Rightarrow> 32 word" where
  "crc32_update c b = (crc32_bit ^^ 8) (c XOR ucast b)"

definition zlib_crc32 :: "byte list \<Rightarrow> int" where
  "zlib_crc32 data = uint (foldl crc32_update 0xFFFFFFFF data XOR 0xFFFFFFFF)"

text \<open>\<^verbatim>\<open>v.to_bytes(4, "big")\<close> for \<open>0 \<le> v < 2 ^ 32\<close>.\<close>

definition to_bytes_4_big :: "int \<Rightarrow> byte list" where
  "to_bytes_4_big v =
     [of_int (v div 16777216 mod 256), of_int (v div 65536 mod 256),
      of_int (v div 256 mod 256), of_int (v mod 256)]"

text \<open>\<^verbatim>\<open>base64.b64encode(...).decode()\<close>: the standard alphabet, padded with \<^verbatim>\<open>=\<close>.\<close>

definition b64_alphabet :: string where
  "b64_alphabet = ''ABCDEFGHIJKLMNOPQRSTUVWXYZabcdefghijklmnopqrstuvwxyz0123456789+/''"

definition b64_char :: "nat \<Rightarrow> char" where
  "b64_char n = b64_alphabet ! (n mod 64)"

fun b64encode :: "byte list \<Rightarrow> string" where
  "b64encode [] = []"
| "b64encode [a] =
     (let n = unat a * 65536
      in [b64_char (n div 262144), b64_char (n div 4096), CHR ''='', CHR ''=''])"
| "b64encode [a, b] =
     (let n = unat a * 65536 + unat b * 256
      in [b64_char (n div 262144), b64_char (n div 4096), b64_char (n div 64), CHR ''=''])"
| "b64encode (a # b # c # rest) =
     (let n = unat a * 65536 + unat b * 256 + unat c
      in [b64_char (n div 262144), b64_char (n div 4096), b64_char (n div 64), b64_char n]
         @ b64encode rest)"

text \<open>\<^verbatim>\<open>_crc32_base64\<close>\<close>

definition crc32_base64 :: "byte list \<Rightarrow> string" where
  "crc32_base64 data =
     (let crc_val = zlib_crc32 data AND 0xFFFFFFFF
      in b64encode (to_bytes_4_big crc_val))"

subsection \<open>The writer and the object key\<close>

text \<open>
  The module global \<^verbatim>\<open>PART_SIZE\<close>.  The unit tests replace it by a smaller value, so
  \<^verbatim>\<open>write_events\<close> below takes the part size as an argument; every property holds for
  each part size, this one included.
\<close>

definition PART_SIZE :: nat where
  "PART_SIZE = 8 * 1024 * 1024"

record S3Writer =
  bucket :: string
  prefix :: string

text \<open>\<^verbatim>\<open>S3Writer.__init__\<close>; a non-empty string is true.\<close>

definition S3Writer_init :: "string \<Rightarrow> string \<Rightarrow> S3Writer" where
  "S3Writer_init bkt pfx =
     \<lparr>bucket = bkt, prefix = (if pfx \<noteq> [] then rstrip_slash pfx @ ''/'' else [])\<rparr>"

text \<open>
  \<^verbatim>\<open>datetime.now(timezone.utc)\<close> is an input; \<^verbatim>\<open>strftime\<close> pads the year to four digits
  and every other field to two.
\<close>

record datetime =
  year :: nat
  month :: nat
  day :: nat
  hour :: nat
  minute :: nat
  second :: nat

definition digit_char :: "nat \<Rightarrow> char" where
  "digit_char n = ''0123456789'' ! (n mod 10)"

definition pad2 :: "nat \<Rightarrow> string" where
  "pad2 n = [digit_char (n div 10), digit_char n]"

definition pad4 :: "nat \<Rightarrow> string" where
  "pad4 n = [digit_char (n div 1000), digit_char (n div 100), digit_char (n div 10), digit_char n]"

definition date_folder :: "datetime \<Rightarrow> string" where
  "date_folder now = pad4 (year now) @ ''/'' @ pad2 (month now) @ ''/'' @ pad2 (day now)"

definition fname :: "datetime \<Rightarrow> string" where
  "fname now = pad2 (hour now) @ pad2 (minute now) @ pad2 (second now) @ ''.jsonl.gz''"

definition object_key :: "S3Writer \<Rightarrow> datetime \<Rightarrow> string \<Rightarrow> string" where
  "object_key w now endpoint = prefix w @ endpoint @ ''/'' @ date_folder now @ ''/'' @ fname now"

subsection \<open>The libraries and the storage service\<close>

text \<open>
  \<^verbatim>\<open>gzip.GzipFile(fileobj=buf, mode="wb")\<close> as a stream compressor with a state of its
  own: opening gives the initial state and the bytes written to \<^verbatim>\<open>buf\<close> at once (the
  header), each \<^verbatim>\<open>write\<close> gives the new state and the bytes that reach \<^verbatim>\<open>buf\<close> (the
  compressor may hold data back), and \<^verbatim>\<open>close\<close> gives the bytes that end the member.
\<close>

record 'z gzip_lib =
  gz_open :: "'z \<times> byte list"
  gz_write :: "'z \<Rightarrow> byte list \<Rightarrow> 'z \<times> byte list"
  gz_close :: "'z \<Rightarrow> byte list"

text \<open>
  The storage client.  Each call either raises or returns: \<^verbatim>\<open>create_multipart_upload\<close>
  the upload id, \<^verbatim>\<open>upload_part\<close> (given part number, body and checksum) the \<^verbatim>\<open>ETag\<close>
  of its response if there is one, \<^verbatim>\<open>complete_multipart_upload\<close> (given the part list)
  and \<^verbatim>\<open>abort_multipart_upload\<close> nothing that is read.
\<close>

record s3_client =
  create_multipart_upload :: "exn + string"
  upload_part :: "nat \<Rightarrow> byte list \<Rightarrow> string \<Rightarrow> exn + string option"
  complete_multipart_upload :: "(nat \<times> string \<times> string) list \<Rightarrow> exn + unit"
  abort_multipart_upload :: "exn + unit"

text \<open>The calls made to the storage client, with their arguments, in order.\<close>

datatype s3_call =
    CreateMultipartUpload string string
  | UploadPart string string nat string "byte list" string
  | CompleteMultipartUpload string string string "(nat \<times> string \<times> string) list"
  | AbortMultipartUpload string string string

record part =
  PartNumber :: nat
  ETag :: string
  Size :: nat
  ChecksumCRC32 :: string

subsection \<open>write\_events\<close>

text \<open>
  \<^verbatim>\<open>_upload_part\<close>: the call made, and the part description or the exception of the
  call.  \<open>payload\<close> is \<^verbatim>\<open>buf.getvalue()\<close>.
\<close>

definition upload_part_call ::
  "s3_client \<Rightarrow> S3Writer \<Rightarrow> byte list \<Rightarrow> string \<Rightarrow> string \<Rightarrow> nat \<Rightarrow> s3_call \<times> (exn + part)" where
  "upload_part_call s3 w payload key upload_id part_no =
     (let checksum_b64 = crc32_base64 payload
      in (UploadPart (bucket w) key part_no upload_id payload checksum_b64,
          case upload_part s3 part_no payload checksum_b64 of
            Inl e \<Rightarrow> Inl e
          | Inr etag \<Rightarrow>
              Inr \<lparr>PartNumber = part_no,
                   ETag = (case etag of None \<Rightarrow> [] | Some t \<Rightarrow> t),
                   Size = length payload,
                   ChecksumCRC32 = checksum_b64\<rparr>))"

text \<open>
  The variables of the loop: \<^verbatim>\<open>part_no\<close>, the contents of \<^verbatim>\<open>buf\<close>, the state of
  \<^verbatim>\<open>gz\<close>, and \<^verbatim>\<open>parts\<close>.
\<close>

record 'z upload_state =
  part_no :: nat
  buf :: "byte list"
  gz :: 'z
  parts :: "part list"

text \<open>
  The \<^verbatim>\<open>for\<close> loop over the events.  \<open>dumps\<close> is
  \<^verbatim>\<open>json.dumps(ev, separators=(",", ":"))\<close>, which may raise; \<open>part_size\<close> is the module
  global \<^verbatim>\<open>PART_SIZE\<close>.  The result is the list of storage calls made and either the
  exception that ended the loop or the variables after it.
\<close>

fun feed_events ::
  "'z gzip_lib \<Rightarrow> ('ev \<Rightarrow> exn + string) \<Rightarrow> s3_client \<Rightarrow> nat \<Rightarrow> S3Writer \<Rightarrow> string \<Rightarrow> string
     \<Rightarrow> 'ev list \<Rightarrow> 'z upload_state \<Rightarrow> s3_call list \<times> (exn + 'z upload_state)" where
  "feed_events G dumps s3 part_size w key upload_id [] s = ([], Inr s)"
| "feed_events G dumps s3 part_size w key upload_id (ev # evs) s =
     (case dumps ev of
        Inl e \<Rightarrow> ([], Inl e)
      | Inr line \<Rightarrow>
          (let written = gz_write G (gz s) (encode line @ [10]);
               buf' = buf s @ snd written
           in if length buf' \<ge> part_size then
                (let up = upload_part_call s3 w (buf' @ gz_close G (fst written)) key upload_id
                            (part_no s)
                 in case snd up of
                      Inl e \<Rightarrow> ([fst up], Inl e)
                    | Inr p \<Rightarrow>
                        prepend [fst up]
                          (feed_events G dumps s3 part_size w key upload_id evs
                             \<lparr>part_no = part_no s + 1, buf = snd (gz_open G),
                              gz = fst (gz_open G), parts = parts s @ [p]\<rparr>))
              else feed_events G dumps s3 part_size w key upload_id evs
                     \<lparr>part_no = part_no s, buf = buf', gz = fst written, parts = parts s\<rparr>))"

text \<open>
  The body of the \<^verbatim>\<open>try\<close> block.  The events are those the iterator yields;
  \<open>iter_error\<close> is the exception the iterator raises after the last of them, if any.
\<close>

definition part_list :: "part list \<Rightarrow> (nat \<times> string \<times> string) list" where
  "part_list ps = map (\<lambda>p. (PartNumber p, ETag p, ChecksumCRC32 p)) ps"

definition try_upload ::
  "'z gzip_lib \<Rightarrow> ('ev \<Rightarrow> exn + string) \<Rightarrow> s3_client \<Rightarrow> nat \<Rightarrow> S3Writer \<Rightarrow> string \<Rightarrow> string
     \<Rightarrow> 'ev list \<Rightarrow> exn option \<Rightarrow> s3_call list \<times> (exn + string)" where
  "try_upload G dumps s3 part_size w key upload_id events iter_error =
     (let fed = feed_events G dumps s3 part_size w key upload_id events
                  \<lparr>part_no = 1, buf = snd (gz_open G), gz = fst (gz_open G), parts = []\<rparr>
      in case snd fed of
           Inl e \<Rightarrow> (fst fed, Inl e)
         | Inr s \<Rightarrow>
             (case iter_error of
                Some e \<Rightarrow> (fst fed, Inl e)
              | None \<Rightarrow>
                  (let up = upload_part_call s3 w (buf s @ gz_close G (gz s)) key upload_id
                              (part_no s)
                   in case snd up of
                        Inl e \<Rightarrow> (fst fed @ [fst up], Inl e)
                      | Inr p \<Rightarrow>
                          (let listed = part_list (parts s @ [p]);
                               calls = fst fed @ [fst up,
                                 CompleteMultipartUpload (bucket w) key upload_id listed]
                           in case complete_multipart_upload s3 listed of
                                Inl e \<Rightarrow> (calls, Inl e)
                              | Inr _ \<Rightarrow> (calls, Inr key)))))"

text \<open>
  \<^verbatim>\<open>write_events\<close>: the session is created outside the \<^verbatim>\<open>try\<close>; an exception of the
  body is answered by the abort call and re-raised, unless the abort call raises itself.
\<close>

definition write_events ::
  "'z gzip_lib \<Rightarrow> ('ev \<Rightarrow> exn + string) \<Rightarrow> s3_client \<Rightarrow> nat \<Rightarrow> S3Writer \<Rightarrow> datetime
     \<Rightarrow> 'ev list \<Rightarrow> exn option \<Rightarrow> string \<Rightarrow> s3_call list \<times> (exn + string)" where
  "write_events G dumps s3 part_size w now events iter_error endpoint =
     (let key = object_key w now endpoint
      in case create_multipart_upload s3 of
           Inl e \<Rightarrow> ([CreateMultipartUpload (bucket w) key], Inl e)
         | Inr upload_id \<Rightarrow>
             (let body = try_upload G dumps s3 part_size w key upload_id events iter_error
              in case snd body of
                   Inr k \<Rightarrow> (CreateMultipartUpload (bucket w) key # fst body, Inr k)
                 | Inl e \<Rightarrow>
                     (CreateMultipartUpload (bucket w) key # fst body
                        @ [AbortMultipartUpload (bucket w) key upload_id],
                      case abort_multipart_upload s3 of
                        Inl e' \<Rightarrow> Inl e'
                      | Inr _ \<Rightarrow> Inl e)))"

subsection \<open>Notions used to state the properties of an upload\<close>

text \<open>The part uploads among the calls: part number, body and checksum of each.\<close>

fun uploaded :: "s3_call list \<Rightarrow> (nat \<times> byte list \<times> string) list" where
  "uploaded [] = []"
| "uploaded (UploadPart b k n u body ck # cs) = (n, body, ck) # uploaded cs"
| "uploaded (_ # cs) = uploaded cs"

text \<open>The part lists of the completion calls among the calls.\<close>

fun completed :: "s3_call list \<Rightarrow> (nat \<times> string \<times> string) list list" where
  "completed [] = []"
| "completed (CompleteMultipartUpload b k u ps # cs) = ps # completed cs"
| "completed (_ # cs) = completed cs"


text \<open>
  The stored object: on completion the service concatenates the bodies of the parts in
  the order of their numbers, which is the order of the uploads.
\<close>

definition stored_object :: "s3_call list \<Rightarrow> byte list" where
  "stored_object calls = concat (map (\<lambda>u. fst (snd u)) (uploaded calls))"

text \<open>Splitting at newlines: each line ends with the byte 10, which is dropped.\<close>

fun lines_from :: "byte list \<Rightarrow> byte list \<Rightarrow> byte list list" where
  "lines_from cur [] = (if cur = [] then [] else [cur])"
| "lines_from cur (b # bs) =
     (if b = 10 then cur # lines_from [] bs else lines_from (cur @ [b]) bs)"

definition lines_of :: "byte list \<Rightarrow> byte list list" where
  "lines_of data = lines_from [] data"

text \<open>
  What the gzip library promises.  A member is what one \<^verbatim>\<open>GzipFile\<close> leaves in its
  buffer once a list of chunks has been written and the file closed; decompressing a
  concatenation of members gives the concatenation of everything written.
\<close>

fun gz_feed :: "'z gzip_lib \<Rightarrow> 'z \<times> byte list \<Rightarrow> byte list list \<Rightarrow> 'z \<times> byte list" where
  "gz_feed G zb [] = zb"
| "gz_feed G zb (c # cs) =
     gz_feed G (fst (gz_write G (fst zb) c), snd zb @ snd (gz_write G (fst zb) c)) cs"

definition gz_member :: "'z gzip_lib \<Rightarrow> byte list list \<Rightarrow> byte list" where
  "gz_member G cs = snd (gz_feed G (gz_open G) cs) @ gz_close G (fst (gz_feed G (gz_open G) cs))"

definition gzip_sound :: "'z gzip_lib \<Rightarrow> (byte list \<Rightarrow> byte list option) \<Rightarrow> bool" where
  "gzip_sound G gunzip =
     (\<forall>ms. gunzip (concat (map (gz_member G) ms)) = Some (concat (map concat ms)))"

text \<open>
  The compressor holds back less than a part: neither the header nor what \<^verbatim>\<open>close\<close>
  flushes reaches the part size.
\<close>

definition gzip_flush_bounded :: "'z gzip_lib \<Rightarrow> nat \<Rightarrow> bool" where
  "gzip_flush_bounded G part_size =
     (length (snd (gz_open G)) \<le> part_size \<and> (\<forall>z. length (gz_close G z) \<le> part_size))"

text \<open>
  The bytes of the line of an event, without the newline; the acknowledgment
  (\<^verbatim>\<open>resp.get("ETag", "")\<close>) that the service gave for an uploaded part; and the entry of
  the completion call for an uploaded part.
\<close>

definition serialized :: "('ev \<Rightarrow> exn + string) \<Rightarrow> 'ev \<Rightarrow> byte list" where
  "serialized dumps ev = (case dumps ev of Inl e \<Rightarrow> [] | Inr line \<Rightarrow> encode line)"

definition etag_of :: "s3_client \<Rightarrow> nat \<Rightarrow> byte list \<Rightarrow> string \<Rightarrow> string" where
  "etag_of s3 n body ck =
     (case upload_part s3 n body ck of Inl e \<Rightarrow> [] | Inr None \<Rightarrow> [] | Inr (Some t) \<Rightarrow> t)"

definition listed_part :: "s3_client \<Rightarrow> nat \<times> byte list \<times> string \<Rightarrow> nat \<times> string \<times> string" where
  "listed_part s3 u = (fst u, etag_of s3 (fst u) (fst (snd u)) (snd (snd u)), snd (snd u))"

text \<open>
  Names for the pieces of the loop body: the payload of a part (the buffer once the
  compressor is closed), the upload call for it, its description in \<^verbatim>\<open>parts\<close>, the
  variables after a write, and the variables after a part has been uploaded.
\<close>

definition closed_payload :: "'z gzip_lib \<Rightarrow> 'z upload_state \<Rightarrow> byte list" where
  "closed_payload G s = buf s @ gz_close G (gz s)"

definition upload_call :: "S3Writer \<Rightarrow> string \<Rightarrow> string \<Rightarrow> nat \<Rightarrow> byte list \<Rightarrow> s3_call" where
  "upload_call w key upload_id n payload =
     UploadPart (bucket w) key n upload_id payload (crc32_base64 payload)"

definition part_of :: "nat \<Rightarrow> string option \<Rightarrow> byte list \<Rightarrow> part" where
  "part_of n etag payload =
     \<lparr>PartNumber = n, ETag = (case etag of None \<Rightarrow> [] | Some t \<Rightarrow> t),
      Size = length payload, ChecksumCRC32 = crc32_base64 payload\<rparr>"

definition next_state :: "'z gzip_lib \<Rightarrow> 'z upload_state \<Rightarrow> byte list \<Rightarrow> 'z upload_state" where
  "next_state G s chunk =
     \<lparr>part_no = part_no s, buf = buf s @ snd (gz_write G (gz s) chunk),
      gz = fst (gz_write G (gz s) chunk), parts = parts s\<rparr>"

definition fresh_state :: "'z gzip_lib \<Rightarrow> nat \<Rightarrow> part list \<Rightarrow> 'z upload_state" where
  "fresh_state G n ps = \<lparr>part_no = n, buf = snd (gz_open G), gz = fst (gz_open G), parts = ps\<rparr>"

subsection \<open>Stand-ins for the libraries and the storage service\<close>

text \<open>
  A stream format that satisfies the promise of the gzip library, for concrete runs: a
  member is two magic bytes, then every data byte behind a marker byte 1, then the end
  marker 0.  Nothing is held back, so the buffer grows with every write.
\<close>

definition plain_write :: "unit \<Rightarrow> byte list \<Rightarrow> unit \<times> byte list" where
  "plain_write z d = ((), concat (map (\<lambda>b. [1, b]) d))"

definition plain_close :: "unit \<Rightarrow> byte list" where
  "plain_close z = [0]"

definition plain_gzip :: "unit gzip_lib" where
  "plain_gzip = \<lparr>gz_open = ((), [31, 139]), gz_write = plain_write, gz_close = plain_close\<rparr>"

datatype gunzip_mode = Magic1 | Magic2 | Marker | Literal

fun plain_gunzip_from :: "gunzip_mode \<Rightarrow> byte list \<Rightarrow> byte list option" where
  "plain_gunzip_from Magic1 [] = Some []"
| "plain_gunzip_from Magic1 (b # bs) = (if b = 31 then plain_gunzip_from Magic2 bs else None)"
| "plain_gunzip_from Magic2 [] = None"
| "plain_gunzip_from Magic2 (b # bs) = (if b = 139 then plain_gunzip_from Marker bs else None)"
| "plain_gunzip_from Marker [] = None"
| "plain_gunzip_from Marker (b # bs) =
     (if b = 0 then plain_gunzip_from Magic1 bs
      else if b = 1 then plain_gunzip_from Literal bs
      else None)"
| "plain_gunzip_from Literal [] = None"
| "plain_gunzip_from Literal (b # bs) = map_option ((#) b) (plain_gunzip_from Marker bs)"

definition plain_gunzip :: "byte list \<Rightarrow> byte list option" where
  "plain_gunzip data = plain_gunzip_from Magic1 data"

text \<open>A serialiser for events that consist of an identifier: \<^verbatim>\<open>{"id":"..."}\<close>.\<close>

definition dumps_id :: "string \<Rightarrow> exn + string" where
  "dumps_id ev =
     Inr (''{'' @ [CHR 0x22] @ ''id'' @ [CHR 0x22] @ '':'' @ [CHR 0x22] @ ev @ [CHR 0x22] @ ''}'')"

text \<open>
  \<^verbatim>\<open>DummyS3\<close> and \<^verbatim>\<open>FailingS3\<close> of the unit tests, and a client whose abort call
  fails as well.
\<close>

definition dummy_upload_part :: "nat \<Rightarrow> byte list \<Rightarrow> string \<Rightarrow> exn + string option" where
  "dummy_upload_part n body ck = Inr (Some (''etag-'' @ [digit_char n]))"

definition dummy_complete :: "(nat \<times> string \<times> string) list \<Rightarrow> exn + unit" where
  "dummy_complete ps = Inr ()"

definition DummyS3 :: s3_client where
  "DummyS3 =
     \<lparr>create_multipart_upload = Inr ''u-1'', upload_part = dummy_upload_part,
      complete_multipart_upload = dummy_complete, abort_multipart_upload = Inr ()\<rparr>"




definition noon :: datetime where
  "noon = \<lparr>year = 2025, month = 5, day = 26, hour = 5, minute = 2, second = 46\<rparr>"

section \<open>Properties of the fetch client\<close>

subsection \<open>Traces\<close>

lemma emitted_append: "emitted (xs @ ys) = emitted xs @ emitted ys"
  by (induction xs rule: emitted.induct) simp_all

lemma emitted_map_Yield: "emitted (map Yield es) = es"
  by (induction es) simp_all

lemma fst_prepend: "fst (prepend xs r) = xs @ fst r"
  by (simp add: prepend_def)

lemma snd_prepend: "snd (prepend xs r) = snd r"
  by (simp add: prepend_def)

lemma prepend_Nil: "prepend [] r = r"
  by (simp add: prepend_def)

lemma prepend_prepend: "prepend xs (prepend ys r) = prepend (xs @ ys) r"
  by (simp add: prepend_def)

lemma fetch_loop_continue:
  "snd (fetch_loop st url idx clock ps pc xs) = Starved ps' pc' \<Longrightarrow>
   fetch_loop st url idx clock ps pc (xs @ ys) =
     prepend (fst (fetch_loop st url idx clock ps pc xs)) (fetch_loop st url idx clock ps' pc' ys)"
proof (induction st url idx clock ps pc xs rule: fetch_loop.induct)
  case (1 st url idx clock ps page_count)
  then show ?case by (simp add: prepend_Nil)
next
  case (2 st url idx clock ps page_count rs)
  then show ?case by simp
next
  case (3 st url idx clock ps page_count status hdrs b rs)
  show ?case
  proof (cases "status = 429")
    case True
    then show ?thesis using 3
      by (auto simp: fst_prepend snd_prepend prepend_prepend split: sum.splits if_splits)
  next
    case False
    then show ?thesis using 3
      by (auto simp: fst_prepend snd_prepend prepend_prepend Let_def split: if_splits)
  qed
qed

lemma fetch_loop_final:
  "(\<forall>q n. snd (fetch_loop st url idx clock ps pc xs) \<noteq> Starved q n) \<Longrightarrow>
   fetch_loop st url idx clock ps pc (xs @ ys) = fetch_loop st url idx clock ps pc xs"
proof (induction st url idx clock ps pc xs rule: fetch_loop.induct)
  case (1 st url idx clock ps page_count)
  then show ?case by simp
next
  case (2 st url idx clock ps page_count rs)
  then show ?case by simp
next
  case (3 st url idx clock ps page_count status hdrs b rs)
  show ?case
  proof (cases "status = 429")
    case True
    then show ?thesis using 3
      by (auto simp: fst_prepend snd_prepend split: sum.splits if_splits)
  next
    case False
    then show ?thesis using 3
      by (auto simp: fst_prepend snd_prepend Let_def split: if_splits)
  qed
qed

lemma fetch_loop_starved_emitted:
  "snd (fetch_loop st url idx clock ps pc xs) = Starved ps' pc' \<Longrightarrow>
   emitted (fst (fetch_loop st url idx clock ps pc xs)) = concat (map events_of xs)"
proof (induction st url idx clock ps pc xs rule: fetch_loop.induct)
  case (1 st url idx clock ps page_count)
  then show ?case by simp
next
  case (2 st url idx clock ps page_count rs)
  then show ?case by simp
next
  case (3 st url idx clock ps page_count status hdrs b rs)
  show ?case
  proof (cases "status = 429")
    case True
    then show ?thesis using 3
      by (auto simp: fst_prepend snd_prepend split: sum.splits if_splits)
  next
    case False
    then show ?thesis using 3
      by (auto simp: fst_prepend snd_prepend Let_def emitted_append emitted_map_Yield split: if_splits)
  qed
qed


lemma fetch_loop_page_stop:
  "is_page r \<Longrightarrow> page_stops st clock (Suc pc) r \<Longrightarrow>
   fetch_loop st url idx clock ps pc (r # rs) = (Get url ps # map Yield (events_of r), Finished)"
  by (cases r) (auto simp: page_stops_def Let_def)

lemma fetch_loop_page_go:
  assumes "is_page r" and "\<not> page_stops st clock (Suc pc) r"
  shows "\<exists>sl. (\<forall>a\<in>set sl. is_Sleep a) \<and>
     fetch_loop st url idx clock ps pc (r # rs) =
       prepend (Get url ps # map Yield (events_of r) @ sl)
         (fetch_loop st url idx clock (Params Next idx) (Suc pc) rs)"
proof (cases r)
  case RequestException
  with assms show ?thesis by simp
next
  case (Response status hdrs b)
  with assms show ?thesis
    by (intro exI [of _ "if wait_time_of_body b > 0 then [Sleep (wait_time_of_body b)] else []"])
       (auto simp: page_stops_def Let_def)
qed

lemma filter_sleeps: "\<forall>a\<in>set sl. is_Sleep a \<Longrightarrow> filter (\<lambda>a. \<not> is_Sleep a) sl = []"
  by (induction sl) auto

lemma emitted_sleeps: "\<forall>a\<in>set sl. is_Sleep a \<Longrightarrow> emitted sl = []"
  by (induction sl rule: emitted.induct) auto

lemma filter_Yields: "filter (\<lambda>a. \<not> is_Sleep a) (map Yield es) = map Yield es"
  by (induction es) auto

lemma fetch_loop_pages:
  assumes "\<forall>r\<in>set xs. is_page r"
    and "\<forall>i. Suc i < length xs \<longrightarrow> \<not> page_stops st clock (pc + Suc i) (xs ! i)"
  shows "filter (\<lambda>a. \<not> is_Sleep a) (fst (fetch_loop st url idx clock ps pc xs)) =
           page_by_page url idx ps xs
         \<and> emitted (fst (fetch_loop st url idx clock ps pc xs)) = concat (map events_of xs)"
  using assms
proof (induction xs arbitrary: ps pc)
  case Nil
  then show ?case by simp
next
  case (Cons r rs)
  have pg: "is_page r" using Cons.prems(1) by simp
  show ?case
  proof (cases "page_stops st clock (Suc pc) r")
    case True
    have "rs = []"
    proof (rule ccontr)
      assume "rs \<noteq> []"
      then have "Suc 0 < length (r # rs)" by (cases rs) auto
      with Cons.prems(2) have "\<not> page_stops st clock (pc + Suc 0) ((r # rs) ! 0)" by blast
      with True show False by simp
    qed
    with fetch_loop_page_stop [OF pg True] show ?thesis
      by (simp add: filter_Yields emitted_map_Yield)
  next
    case False
    from fetch_loop_page_go [OF pg False] obtain sl where
      sl: "\<forall>a\<in>set sl. is_Sleep a" and
      eq: "fetch_loop st url idx clock ps pc (r # rs) =
             prepend (Get url ps # map Yield (events_of r) @ sl)
               (fetch_loop st url idx clock (Params Next idx) (Suc pc) rs)"
      by blast
    have p1: "\<forall>r\<in>set rs. is_page r" using Cons.prems(1) by simp
    have p2: "\<forall>i. Suc i < length rs \<longrightarrow> \<not> page_stops st clock (Suc pc + Suc i) (rs ! i)"
    proof (intro allI impI)
      fix i assume "Suc i < length rs"
      then have "Suc (Suc i) < length (r # rs)" by simp
      with Cons.prems(2) have "\<not> page_stops st clock (pc + Suc (Suc i)) ((r # rs) ! Suc i)"
        by blast
      then show "\<not> page_stops st clock (Suc pc + Suc i) (rs ! i)" by simp
    qed
    from Cons.IH [OF p1 p2, of "Params Next idx"] eq sl show ?thesis
      by (simp add: fst_prepend filter_Yields filter_sleeps emitted_append emitted_map_Yield
          emitted_sleeps)
  qed
qed

lemma fetch_loop_pages_outcome:
  assumes "\<forall>r\<in>set xs. is_page r" and "xs \<noteq> []"
    and "\<forall>i. Suc i < length xs \<longrightarrow> \<not> page_stops st clock (pc + Suc i) (xs ! i)"
    and "page_stops st clock (pc + length xs) (last xs)"
  shows "snd (fetch_loop st url idx clock ps pc xs) = Finished"
  using assms
proof (induction xs arbitrary: ps pc)
  case Nil
  then show ?case by simp
next
  case (Cons r rs)
  have pg: "is_page r" using Cons.prems(1) by simp
  show ?case
  proof (cases "rs = []")
    case True
    with Cons.prems(4) have "page_stops st clock (Suc pc) r" by simp
    from fetch_loop_page_stop [OF pg this] show ?thesis by simp
  next
    case False
    then have "Suc 0 < length (r # rs)" by (cases rs) auto
    with Cons.prems(3) have "\<not> page_stops st clock (pc + Suc 0) ((r # rs) ! 0)" by blast
    then have ns: "\<not> page_stops st clock (Suc pc) r" by simp
    from fetch_loop_page_go [OF pg ns] obtain sl where
      eq: "fetch_loop st url idx clock ps pc (r # rs) =
             prepend (Get url ps # map Yield (events_of r) @ sl)
               (fetch_loop st url idx clock (Params Next idx) (Suc pc) rs)"
      by blast
    have p1: "\<forall>r\<in>set rs. is_page r" using Cons.prems(1) by simp
    have p2: "\<forall>i. Suc i < length rs \<longrightarrow> \<not> page_stops st clock (Suc pc + Suc i) (rs ! i)"
    proof (intro allI impI)
      fix i assume "Suc i < length rs"
      then have "Suc (Suc i) < length (r # rs)" by simp
      with Cons.prems(3) have "\<not> page_stops st clock (pc + Suc (Suc i)) ((r # rs) ! Suc i)"
        by blast
      then show "\<not> page_stops st clock (Suc pc + Suc i) (rs ! i)" by simp
    qed
    have p3: "page_stops st clock (Suc pc + length rs) (last rs)"
      using Cons.prems(4) False by simp
    from Cons.IH [OF p1 False p2 p3, of "Params Next idx"] eq show ?thesis
      by (simp add: snd_prepend)
  qed
qed

subsection \<open>Fixtures\<close>

lemma make_client_simps:
  "settings (make_client p d) = make_settings p d"
  "base_url (make_client p d) = ''http://mock''"
  "index (make_client p d) = ''demo''"
  "max_fetch_pages (make_settings p d) = p"
  "max_fetch_duration_seconds (make_settings p d) = d"
  "endpoint_paths (make_settings p d) = [(''application'', ''/dummy-path'')]"
  by (simp_all add: make_client_def make_settings_def NetskopeClient_init_def rstrip_slash_def)

subsection \<open>Pages in order\<close>

text \<open>
  The page budget cuts a fetch short: with \<^verbatim>\<open>max_fetch_pages = 1\<close> and two non-empty
  pages scripted, only the first page's records are emitted, not the concatenation of both.
\<close>

theorem fetch_budget_truncates_counterexample:
  "emitted (fst (fetch_events (make_client 1 300) frozen_clock ''application'' 0
      [page [1::nat] 0, page [2] 0]))
   \<noteq> concat (map events_of [page [1::nat] 0, page [2] 0])"
  by (simp add: fetch_events_def make_client_def make_settings_def NetskopeClient_init_def
      page_def frozen_clock_def raises_for_status_def events_of_body_def wait_time_of_body_def)

text \<open>
  Claim C1, as amended.  For a supported endpoint and a script of page responses in which
  every page but the last has a non-empty \<^verbatim>\<open>result\<close>, if neither the page budget nor the
  time budget is reached after any page but the last, then the records emitted are the
  concatenation of all \<^verbatim>\<open>result\<close> arrays in page order, and the trace without its sleeps
  is, page after page, the request followed by all records of that page: every record of a
  page is emitted before the next request, nothing is reordered, dropped or repeated.
\<close>

theorem fetch_events_concat_pages:
  assumes ep: "map_of (endpoint_paths (settings c)) endpoint = Some path"
    and pages: "\<forall>r\<in>set script. is_page r"
    and nonempty: "\<forall>r\<in>set (butlast script). events_of r \<noteq> []"
    and budget: "\<forall>k. 1 \<le> k \<and> k < length script \<longrightarrow>
       int k < max_fetch_pages (settings c) \<and>
       clock k - clock 0 < real_of_int (max_fetch_duration_seconds (settings c))"
  shows "emitted (fst (fetch_events c clock endpoint since script)) = concat (map events_of script)
    \<and> filter (\<lambda>a. \<not> is_Sleep a) (fst (fetch_events c clock endpoint since script)) =
        page_by_page (base_url c @ path) (index c) (Params (Since since) (index c)) script"
proof -
  have go: "\<forall>i. Suc i < length script \<longrightarrow>
      \<not> page_stops (settings c) clock (0 + Suc i) (script ! i)"
  proof (intro allI impI)
    fix i assume i: "Suc i < length script"
    then have "i < length (butlast script)" by simp
    then have mem: "script ! i \<in> set (butlast script)"
      by (metis nth_butlast nth_mem)
    with nonempty have ne: "events_of (script ! i) \<noteq> []" by blast
    from budget i have b: "int (Suc i) < max_fetch_pages (settings c)"
      "clock (Suc i) - clock 0 < real_of_int (max_fetch_duration_seconds (settings c))"
      by auto
    from ne b show "\<not> page_stops (settings c) clock (0 + Suc i) (script ! i)"
      by (cases "script ! i") (auto simp: page_stops_def split: if_splits)
  qed
  from fetch_loop_pages [OF pages go] ep show ?thesis
    by (simp add: fetch_events_def)
qed

theorem fetch_events_concat_pages_witness:
  "emitted (fst (fetch_events (make_client 100 300) frozen_clock ''application'' 0
      [page [1::nat, 2] 1, page [3] 0, page [] 0])) = [1, 2, 3]
   \<and> filter (\<lambda>a. \<not> is_Sleep a)
        (fst (fetch_events (make_client 100 300) frozen_clock ''application'' 0
           [page [1::nat, 2] 1, page [3] 0, page [] 0])) =
      [Get ''http://mock/dummy-path'' (Params (Since 0) ''demo''), Yield 1, Yield 2,
       Get ''http://mock/dummy-path'' (Params Next ''demo''), Yield 3,
       Get ''http://mock/dummy-path'' (Params Next ''demo'')]"
proof -
  have ep: "map_of (endpoint_paths (settings (make_client 100 300))) ''application''
      = Some ''/dummy-path''"
    by (simp add: make_client_simps)
  have pages: "\<forall>r\<in>set [page [1::nat, 2] 1, page [3] 0, page [] 0]. is_page r"
    by (simp add: page_def raises_for_status_def)
  have nonempty: "\<forall>r\<in>set (butlast [page [1::nat, 2] 1, page [3] 0, page [] 0]).
      events_of r \<noteq> []"
    by (simp add: page_def raises_for_status_def events_of_body_def)
  have budget: "\<forall>k. 1 \<le> k \<and> k < length [page [1::nat, 2] 1, page [3] 0, page [] 0] \<longrightarrow>
       int k < max_fetch_pages (settings (make_client 100 300)) \<and>
       frozen_clock k - frozen_clock 0
         < real_of_int (max_fetch_duration_seconds (settings (make_client 100 300)))"
    by (simp add: make_client_simps frozen_clock_def)
  from fetch_events_concat_pages [OF ep pages nonempty budget, of 0] show ?thesis
    by (simp add: make_client_simps page_def raises_for_status_def events_of_body_def)
qed

subsection \<open>Unsupported endpoints\<close>

lemma retry_after_not_unsupported: "retry_after hdrs \<noteq> Inl (UnsupportedEndpoint e)"
  by (simp add: retry_after_def py_int_def Let_def split: option.splits)

lemma fetch_loop_not_unsupported:
  "snd (fetch_loop st url idx clock ps pc xs) \<noteq> Raised (UnsupportedEndpoint e)"
proof (induction st url idx clock ps pc xs rule: fetch_loop.induct)
  case (1 st url idx clock ps page_count)
  then show ?case by simp
next
  case (2 st url idx clock ps page_count rs)
  then show ?case by simp
next
  case (3 st url idx clock ps page_count status hdrs b rs)
  show ?case
  proof (cases "status = 429")
    case True
    then show ?thesis using 3 retry_after_not_unsupported [of hdrs e]
      by (auto simp: snd_prepend split: sum.splits)
  next
    case False
    then show ?thesis using 3
      by (auto simp: snd_prepend Let_def)
  qed
qed

text \<open>
  Claim C8.  For an endpoint that is not in the path map, \<^verbatim>\<open>fetch_events\<close> raises the
  unsupported-endpoint error, a \<^verbatim>\<open>ValueError\<close>, with an empty trace: no request has been
  sent and no record produced.  For an endpoint that is in the map, no run ends with that
  error.
\<close>

theorem fetch_events_unsupported_endpoint:
  "(map_of (endpoint_paths (settings c)) endpoint = None \<longrightarrow>
      fetch_events c clock endpoint since script = ([], Raised (UnsupportedEndpoint endpoint))
      \<and> is_ValueError (UnsupportedEndpoint endpoint))
   \<and> (map_of (endpoint_paths (settings c)) endpoint \<noteq> None \<longrightarrow>
      (\<forall>e. snd (fetch_events c clock endpoint since script) \<noteq> Raised (UnsupportedEndpoint e)))"
  by (auto simp: fetch_events_def fetch_loop_not_unsupported)

theorem fetch_events_unsupported_endpoint_witness:
  "map_of (endpoint_paths (settings (make_client 100 300))) ''nope'' = None
   \<and> fetch_events (make_client 100 300) frozen_clock ''nope'' 0 [page [1::nat] 0]
        = ([], Raised (UnsupportedEndpoint ''nope''))
   \<and> map_of (endpoint_paths (settings (make_client 100 300))) ''application'' \<noteq> None
   \<and> snd (fetch_events (make_client 100 300) frozen_clock ''application'' 0 [page [1::nat] 0])
        \<noteq> Raised (UnsupportedEndpoint ''application'')"
  using fetch_events_unsupported_endpoint
    [of "make_client 100 300" "''nope''" frozen_clock 0 "[page [1::nat] 0]"]
    fetch_events_unsupported_endpoint
    [of "make_client 100 300" "''application''" frozen_clock 0 "[page [1::nat] 0]"]
  by (simp add: make_client_simps)

subsection \<open>Transport failures\<close>

text \<open>
  Claim C7.  When a run reaches a request (it is starved after the replies \<open>pre\<close>) and
  that request fails with a \<^verbatim>\<open>RequestException\<close>, the run ends there as finished: the
  trace is that of the earlier replies followed by the failed request, the records emitted
  are exactly those of the pages before, nothing of the later script is used, and no
  error is raised.
\<close>

theorem fetch_events_transport_failure:
  assumes ep: "map_of (endpoint_paths (settings c)) endpoint = Some path"
    and reach: "snd (fetch_events c clock endpoint since pre) = Starved ps pc"
  shows "fetch_events c clock endpoint since (pre @ RequestException # rest) =
           (fst (fetch_events c clock endpoint since pre) @ [Get (base_url c @ path) ps], Finished)
    \<and> emitted (fst (fetch_events c clock endpoint since (pre @ RequestException # rest))) =
        concat (map events_of pre)"
proof -
  let ?loop = "fetch_loop (settings c) (base_url c @ path) (index c) clock"
  let ?q = "Params (Since since) (index c)"
  from ep reach have st: "snd (?loop ?q 0 pre) = Starved ps pc"
    by (simp add: fetch_events_def)
  have "?loop ?q 0 (pre @ RequestException # rest) =
      prepend (fst (?loop ?q 0 pre)) (?loop ps pc (RequestException # rest))"
    by (rule fetch_loop_continue [OF st])
  then have run: "?loop ?q 0 (pre @ RequestException # rest) =
      (fst (?loop ?q 0 pre) @ [Get (base_url c @ path) ps], Finished)"
    by (simp add: prepend_def)
  from fetch_loop_starved_emitted [OF st] run ep show ?thesis
    by (simp add: fetch_events_def emitted_append)
qed

theorem fetch_events_transport_failure_witness:
  "fetch_events (make_client 100 300) frozen_clock ''application'' 0
     ([page [1::nat, 2] 0] @ RequestException # [page [3] 0]) =
     ([Get ''http://mock/dummy-path'' (Params (Since 0) ''demo''), Yield 1, Yield 2,
       Get ''http://mock/dummy-path'' (Params Next ''demo'')], Finished)
   \<and> emitted (fst (fetch_events (make_client 100 300) frozen_clock ''application'' 0
        ([page [1::nat, 2] 0] @ RequestException # [page [3] 0]))) = [1, 2]"
proof -
  have ep: "map_of (endpoint_paths (settings (make_client 100 300))) ''application''
      = Some ''/dummy-path''"
    by (simp add: make_client_simps)
  have reach: "snd (fetch_events (make_client 100 300) frozen_clock ''application'' 0
      [page [1::nat, 2] 0]) = Starved (Params Next ''demo'') 1"
    by (simp add: fetch_events_def make_client_simps page_def raises_for_status_def
        events_of_body_def wait_time_of_body_def frozen_clock_def snd_prepend)
  from fetch_events_transport_failure [OF ep reach, of "[page [3] 0]"] show ?thesis
    by (simp add: fetch_events_def make_client_simps page_def raises_for_status_def
        events_of_body_def wait_time_of_body_def frozen_clock_def fst_prepend)
qed

subsection \<open>Rate limiting\<close>

lemma fetch_loop_429:
  assumes "retry_after hdrs = Inr n" and "0 \<le> n"
  shows "fetch_loop st url idx clock ps pc (replicate k (Response 429 hdrs b) @ rest) =
     prepend (concat (replicate k [Get url ps, Sleep n])) (fetch_loop st url idx clock ps pc rest)"
proof (induction k)
  case 0
  then show ?case by (simp add: prepend_Nil)
next
  case (Suc k)
  with assms show ?case by (simp add: prepend_prepend)
qed

lemma fetch_loop_single_emitted:
  "emitted (fst (fetch_loop st url idx clock ps pc [r])) = events_of r"
proof (cases r)
  case RequestException
  then show ?thesis by simp
next
  case (Response status hdrs b)
  then show ?thesis
    by (auto simp: Let_def fst_prepend emitted_append emitted_map_Yield split: sum.splits)
qed

text \<open>
  What a run does on 429 replies whose \<^verbatim>\<open>Retry-After\<close> value \<^verbatim>\<open>int()\<close> accepts and
  \<^verbatim>\<open>time.sleep\<close> takes.
\<close>

lemma fetch_events_retry:
  assumes ep: "map_of (endpoint_paths (settings c)) endpoint = Some path"
    and reach: "snd (fetch_events c clock endpoint since pre) = Starved ps pc"
    and ra: "retry_after hdrs = Inr n"
    and nn: "0 \<le> n"
  shows "fetch_events c clock endpoint since (pre @ replicate k (Response 429 hdrs b) @ rest) =
           prepend (fst (fetch_events c clock endpoint since pre)
                      @ concat (replicate k [Get (base_url c @ path) ps, Sleep n]))
             (fetch_loop (settings c) (base_url c @ path) (index c) clock ps pc rest)
    \<and> (map_of hdrs ''Retry-After'' = None \<longrightarrow> n = 5)
    \<and> emitted (fst (fetch_events c clock endpoint since
            (pre @ [Response 429 hdrs b, Response 200 hdrs' b']))) =
         concat (map events_of pre) @ events_of_body b'"
proof -
  let ?loop = "fetch_loop (settings c) (base_url c @ path) (index c) clock"
  let ?q = "Params (Since since) (index c)"
  from ep reach have st: "snd (?loop ?q 0 pre) = Starved ps pc"
    by (simp add: fetch_events_def)
  have run: "?loop ?q 0 (pre @ replicate j (Response 429 hdrs b) @ later) =
      prepend (fst (?loop ?q 0 pre) @ concat (replicate j [Get (base_url c @ path) ps, Sleep n]))
        (?loop ps pc later)" for j later
    using fetch_loop_continue [OF st, of "replicate j (Response 429 hdrs b) @ later"]
      fetch_loop_429 [OF ra nn, of "settings c" "base_url c @ path" "index c" clock ps pc j b later]
    by (simp add: prepend_prepend)
  from run [of k rest] ep
  have retried: "fetch_events c clock endpoint since (pre @ replicate k (Response 429 hdrs b) @ rest) =
           prepend (fst (fetch_events c clock endpoint since pre)
                      @ concat (replicate k [Get (base_url c @ path) ps, Sleep n]))
             (fetch_loop (settings c) (base_url c @ path) (index c) clock ps pc rest)"
    by (simp add: fetch_events_def)
  from ra have absent: "map_of hdrs ''Retry-After'' = None \<longrightarrow> n = 5"
    by (auto simp: retry_after_def)
  have "emitted (fst (?loop ?q 0 (pre @ replicate 1 (Response 429 hdrs b)
            @ [Response 200 hdrs' b']))) =
        emitted (fst (?loop ?q 0 pre)) @ events_of (Response 200 hdrs' b')"
    by (simp only: run fst_prepend emitted_append fetch_loop_single_emitted) simp
  with fetch_loop_starved_emitted [OF st] ep
  have once: "emitted (fst (fetch_events c clock endpoint since
          (pre @ [Response 429 hdrs b, Response 200 hdrs' b']))) =
       concat (map events_of pre) @ events_of_body b'"
    by (simp add: fetch_events_def raises_for_status_def)
  from retried absent once show ?thesis by blast
qed

text \<open>The delay form of the header is read by \<^verbatim>\<open>int()\<close> as the number it denotes.\<close>

lemma digit_not_space: "is_digit c \<Longrightarrow> \<not> is_space c"
  by (auto simp: is_digit_def is_space_def Let_def)

lemma digit_not_sign: "is_digit c \<Longrightarrow> c \<noteq> CHR ''-'' \<and> c \<noteq> CHR ''+'' \<and> c \<noteq> CHR ''_''"
  by (auto simp: is_digit_def Let_def)

lemma digit_val_nonneg: "is_digit c \<Longrightarrow> 0 \<le> digit_val c"
  by (simp add: is_digit_def digit_val_def Let_def)

lemma strip_digits:
  assumes "v \<noteq> []" and "\<forall>c\<in>set v. is_digit c"
  shows "strip v = v"
proof -
  from assms have "\<not> is_space (hd v)" by (simp add: digit_not_space)
  with assms(1) have a: "dropWhile is_space v = v" by (cases v) simp_all
  from assms have "\<not> is_space (last v)" by (simp add: digit_not_space)
  with assms(1) have "\<not> is_space (hd (rev v))" by (simp add: hd_rev)
  with assms(1) have "dropWhile is_space (rev v) = rev v" by (cases "rev v") simp_all
  with a show ?thesis by (simp add: strip_def)
qed

lemma digits_tl_digits:
  "\<forall>c\<in>set cs. is_digit c \<Longrightarrow>
   digits_tl cs acc = Some (foldl (\<lambda>a c. 10 * a + digit_val c) acc cs)"
  by (induction cs arbitrary: acc) simp_all

lemma foldl_digits_nonneg:
  "\<forall>c\<in>set cs. is_digit c \<Longrightarrow> 0 \<le> acc \<Longrightarrow>
   0 \<le> foldl (\<lambda>a c. 10 * a + digit_val c) acc cs"
  by (induction cs arbitrary: acc) (simp_all add: digit_val_nonneg)

lemma digits_value_nonneg: "\<forall>c\<in>set v. is_digit c \<Longrightarrow> 0 \<le> digits_value v"
  by (simp add: digits_value_def foldl_digits_nonneg)

lemma py_int_digits:
  assumes "v \<noteq> []" and "\<forall>c\<in>set v. is_digit c"
  shows "py_int v = Inr (digits_value v)"
proof -
  from assms(1) obtain c cs where v: "v = c # cs" by (cases v) auto
  with assms(2) have c: "is_digit c" and cs: "\<forall>c\<in>set cs. is_digit c" by simp_all
  from c cs have "digits (c # cs) = Some (digits_value (c # cs))"
    by (simp add: digits_tl_digits digits_value_def)
  with strip_digits [OF assms] v digit_not_sign [OF c] show ?thesis
    by (simp add: py_int_def)
qed

lemma retry_after_delay:
  assumes "case map_of hdrs ''Retry-After'' of
             None \<Rightarrow> n = 5
           | Some v \<Rightarrow> v \<noteq> [] \<and> (\<forall>c\<in>set v. is_digit c) \<and> n = digits_value v"
  shows "retry_after hdrs = Inr n \<and> 0 \<le> n"
  using assms
  by (auto simp: retry_after_def py_int_digits digits_value_nonneg split: option.splits)

text \<open>
  A \<^verbatim>\<open>Retry-After\<close> header may hold a date instead of seconds, and a server may send
  anything.  On a value that \<^verbatim>\<open>int()\<close> rejects, and on a negative one, the fetch raises
  \<^verbatim>\<open>ValueError\<close>: there is no sleep and no retry, and the records of a following 200
  are never emitted.
\<close>

theorem fetch_rate_limit_header_counterexample:
  "fetch_events (make_client 100 300) frozen_clock ''application'' 0
     [Response 429 [(''Retry-After'', ''Wed, 21 Oct 2015 07:28:00 GMT'')]
        \<lparr>result = None, wait_time = None\<rparr>,
      page [1::nat] 0] =
     ([Get ''http://mock/dummy-path'' (Params (Since 0) ''demo'')],
      Raised (InvalidIntLiteral ''Wed, 21 Oct 2015 07:28:00 GMT''))
   \<and> emitted (fst (fetch_events (make_client 100 300) frozen_clock ''application'' 0
        [Response 429 [(''Retry-After'', ''Wed, 21 Oct 2015 07:28:00 GMT'')]
           \<lparr>result = None, wait_time = None\<rparr>,
         page [1::nat] 0])) \<noteq> [1]
   \<and> fetch_events (make_client 100 300) frozen_clock ''application'' 0
     [Response 429 [(''Retry-After'', ''-1'')] \<lparr>result = None, wait_time = None\<rparr>,
      page [1::nat] 0] =
     ([Get ''http://mock/dummy-path'' (Params (Since 0) ''demo'')], Raised (NegativeSleep (- 1)))"
  by (simp add: fetch_events_def make_client_simps retry_after_def py_int_def strip_def
      is_space_def is_digit_def digit_val_def)

text \<open>
  Claim C5, as amended.  When a run reaches a request and the reply is a 429 whose
  \<^verbatim>\<open>Retry-After\<close> header is absent or is a non-empty run of decimal digits, the loop
  records the request and a sleep of as many seconds as the digits denote (5 when the
  header is absent), emits nothing, and sends the request again with the same parameters
  and the same page count; this holds for any number \<open>k\<close> of such replies in a row.
  Hence such a 429 followed by a 200 with records \<open>R\<close> adds exactly \<open>R\<close> to what was
  emitted before.
\<close>

theorem fetch_events_rate_limited:
  assumes ep: "map_of (endpoint_paths (settings c)) endpoint = Some path"
    and reach: "snd (fetch_events c clock endpoint since pre) = Starved ps pc"
    and hdr: "case map_of hdrs ''Retry-After'' of
                None \<Rightarrow> n = 5
              | Some v \<Rightarrow> v \<noteq> [] \<and> (\<forall>c\<in>set v. is_digit c) \<and> n = digits_value v"
  shows "fetch_events c clock endpoint since (pre @ replicate k (Response 429 hdrs b) @ rest) =
           prepend (fst (fetch_events c clock endpoint since pre)
                      @ concat (replicate k [Get (base_url c @ path) ps, Sleep n]))
             (fetch_loop (settings c) (base_url c @ path) (index c) clock ps pc rest)
    \<and> emitted (fst (fetch_events c clock endpoint since
            (pre @ [Response 429 hdrs b, Response 200 hdrs' b']))) =
         concat (map events_of pre) @ events_of_body b'"
proof -
  from retry_after_delay [OF hdr] have ra: "retry_after hdrs = Inr n" and nn: "0 \<le> n"
    by simp_all
  from fetch_events_retry [OF ep reach ra nn] show ?thesis by blast
qed

theorem fetch_events_rate_limited_witness:
  "fetch_events (make_client 100 300) frozen_clock ''application'' 0
     ([page [1::nat] 0] @ replicate 2 (Response 429 [(''Retry-After'', ''17'')]
         \<lparr>result = None, wait_time = None\<rparr>) @ [page [2] 0]) =
     ([Get ''http://mock/dummy-path'' (Params (Since 0) ''demo''), Yield 1,
       Get ''http://mock/dummy-path'' (Params Next ''demo''), Sleep 17,
       Get ''http://mock/dummy-path'' (Params Next ''demo''), Sleep 17,
       Get ''http://mock/dummy-path'' (Params Next ''demo''), Yield 2],
      Starved (Params Next ''demo'') 2)
   \<and> emitted (fst (fetch_events (make_client 100 300) frozen_clock ''application'' 0
        ([page [1::nat] 0] @ [Response 429 [(''Retry-After'', ''17'')]
            \<lparr>result = None, wait_time = None\<rparr>,
          Response 200 [] \<lparr>result = Some [2], wait_time = Some 0\<rparr>]))) = [1, 2]
   \<and> fetch_events (make_client 100 300) frozen_clock ''application'' 0
     ([page [1::nat] 0] @ replicate 1 (Response 429 [] \<lparr>result = None, wait_time = None\<rparr>)
        @ [page [2] 0]) =
     ([Get ''http://mock/dummy-path'' (Params (Since 0) ''demo''), Yield 1,
       Get ''http://mock/dummy-path'' (Params Next ''demo''), Sleep 5,
       Get ''http://mock/dummy-path'' (Params Next ''demo''), Yield 2],
      Starved (Params Next ''demo'') 2)"
proof -
  have ep: "map_of (endpoint_paths (settings (make_client 100 300))) ''application''
      = Some ''/dummy-path''"
    by (simp add: make_client_simps)
  have reach: "snd (fetch_events (make_client 100 300) frozen_clock ''application'' 0
      [page [1::nat] 0]) = Starved (Params Next ''demo'') 1"
    by (simp add: fetch_events_def make_client_simps page_def raises_for_status_def
        events_of_body_def wait_time_of_body_def frozen_clock_def snd_prepend)
  have given: "case map_of [(''Retry-After'', ''17'')] ''Retry-After'' of
                None \<Rightarrow> (17::int) = 5
              | Some v \<Rightarrow> v \<noteq> [] \<and> (\<forall>c\<in>set v. is_digit c) \<and> 17 = digits_value v"
    by (simp add: is_digit_def digits_value_def digit_val_def)
  have absent: "case map_of ([] :: (string \<times> string) list) ''Retry-After'' of
                None \<Rightarrow> (5::int) = 5
              | Some v \<Rightarrow> v \<noteq> [] \<and> (\<forall>c\<in>set v. is_digit c) \<and> 5 = digits_value v"
    by simp
  from fetch_events_rate_limited [OF ep reach given, where k = 2
      and b = "\<lparr>result = None, wait_time = None\<rparr>" and rest = "[page [2] 0]" and hdrs' = "[]"
      and b' = "\<lparr>result = Some [2], wait_time = Some 0\<rparr>"]
    fetch_events_rate_limited [OF ep reach absent, where k = 1
      and b = "\<lparr>result = None, wait_time = None\<rparr>" and rest = "[page [2] 0]" and hdrs' = "[]"
      and b' = "\<lparr>result = Some [2], wait_time = Some 0\<rparr>"]
  show ?thesis
    by (simp add: fetch_events_def make_client_simps page_def raises_for_status_def
        events_of_body_def wait_time_of_body_def frozen_clock_def prepend_def numeral_2_eq_2)
qed

subsection \<open>Budgets\<close>

text \<open>
  The budgets are checked only after a page, and the time budget also stops a fetch that
  is still below its page budget: with \<^verbatim>\<open>max_fetch_pages = 0\<close> one page is returned,
  not none; with \<^verbatim>\<open>max_fetch_pages = 2\<close> and \<^verbatim>\<open>max_fetch_duration_seconds = 0\<close> one
  page is returned, not two.
\<close>

theorem fetch_budgets_counterexample:
  "emitted (fst (fetch_events (make_client 0 300) frozen_clock ''application'' 0
      [page [1::nat] 0, page [2] 0]))
     \<noteq> concat (map events_of (take 0 [page [1::nat] 0, page [2] 0]))
   \<and> emitted (fst (fetch_events (make_client 2 0) frozen_clock ''application'' 0
      [page [1::nat] 0, page [2] 0, page [3] 0]))
     \<noteq> concat (map events_of (take 2 [page [1::nat] 0, page [2] 0, page [3] 0]))"
  by (simp add: fetch_events_def make_client_simps page_def raises_for_status_def
      events_of_body_def wait_time_of_body_def frozen_clock_def)

text \<open>
  Claim C6, as amended.  For a supported endpoint: (1) with \<^verbatim>\<open>max_fetch_pages = N\<close>,
  \<open>N \<ge> 1\<close>, if the first \<open>N\<close> replies are non-empty pages and the time budget is not
  reached after any of the first \<open>N - 1\<close> of them, the fetch finishes without error after
  exactly these \<open>N\<close> pages, whatever the server would send later, and emits their records;
  (2) with \<^verbatim>\<open>max_fetch_duration_seconds = 0\<close> and a non-decreasing clock, if the first
  reply is a page, the fetch emits that page's records and finishes.
\<close>

theorem fetch_events_budgets:
  assumes ep: "map_of (endpoint_paths (settings c)) endpoint = Some path"
  shows "(1 \<le> max_fetch_pages (settings c)
          \<and> int (length pages) = max_fetch_pages (settings c)
          \<and> (\<forall>r\<in>set pages. is_page r \<and> events_of r \<noteq> [])
          \<and> (\<forall>k. 1 \<le> k \<and> k < length pages \<longrightarrow>
                clock k - clock 0 < real_of_int (max_fetch_duration_seconds (settings c)))
        \<longrightarrow> fetch_events c clock endpoint since (pages @ later) =
              (fst (fetch_events c clock endpoint since pages), Finished)
            \<and> emitted (fst (fetch_events c clock endpoint since (pages @ later))) =
              concat (map events_of pages))
     \<and> (max_fetch_duration_seconds (settings c) = 0
          \<and> (\<forall>i j. i \<le> j \<longrightarrow> clock i \<le> clock j)
          \<and> is_page r
        \<longrightarrow> fetch_events c clock endpoint since (r # later) =
              (Get (base_url c @ path) (Params (Since since) (index c)) # map Yield (events_of r),
               Finished))"
proof (intro conjI impI)
  let ?loop = "fetch_loop (settings c) (base_url c @ path) (index c) clock"
  let ?q = "Params (Since since) (index c)"
  assume h: "1 \<le> max_fetch_pages (settings c)
          \<and> int (length pages) = max_fetch_pages (settings c)
          \<and> (\<forall>r\<in>set pages. is_page r \<and> events_of r \<noteq> [])
          \<and> (\<forall>k. 1 \<le> k \<and> k < length pages \<longrightarrow>
                clock k - clock 0 < real_of_int (max_fetch_duration_seconds (settings c)))"
  then have ne: "pages \<noteq> []" by auto
  from h have pg: "\<forall>r\<in>set pages. is_page r" by blast
  have go: "\<forall>i. Suc i < length pages \<longrightarrow>
      \<not> page_stops (settings c) clock (0 + Suc i) (pages ! i)"
  proof (intro allI impI)
    fix i assume i: "Suc i < length pages"
    then have "pages ! i \<in> set pages" by simp
    with h have e: "events_of (pages ! i) \<noteq> []" by blast
    from h i have b: "int (Suc i) < max_fetch_pages (settings c)"
      "clock (Suc i) - clock 0 < real_of_int (max_fetch_duration_seconds (settings c))"
      by auto
    from e b show "\<not> page_stops (settings c) clock (0 + Suc i) (pages ! i)"
      by (cases "pages ! i") (auto simp: page_stops_def split: if_splits)
  qed
  from h have stop: "page_stops (settings c) clock (0 + length pages) (last pages)"
    by (simp add: page_stops_def)
  have fin: "snd (?loop ?q 0 pages) = Finished"
    by (rule fetch_loop_pages_outcome [OF pg ne go stop])
  then have "?loop ?q 0 (pages @ later) = ?loop ?q 0 pages"
    by (intro fetch_loop_final) simp
  with fin have run: "?loop ?q 0 (pages @ later) = (fst (?loop ?q 0 pages), Finished)"
    by (metis prod.collapse)
  with ep show "fetch_events c clock endpoint since (pages @ later) =
              (fst (fetch_events c clock endpoint since pages), Finished)"
    by (simp add: fetch_events_def)
  from run fetch_loop_pages [OF pg go, of "base_url c @ path" "index c" ?q] ep
  show "emitted (fst (fetch_events c clock endpoint since (pages @ later))) =
              concat (map events_of pages)"
    by (simp add: fetch_events_def)
next
  assume h: "max_fetch_duration_seconds (settings c) = 0
          \<and> (\<forall>i j. i \<le> j \<longrightarrow> clock i \<le> clock j)
          \<and> is_page r"
  then have "clock 0 \<le> clock (Suc 0)" by blast
  with h have "page_stops (settings c) clock (Suc 0) r"
    by (simp add: page_stops_def)
  with h ep show "fetch_events c clock endpoint since (r # later) =
              (Get (base_url c @ path) (Params (Since since) (index c)) # map Yield (events_of r),
               Finished)"
    by (simp add: fetch_events_def fetch_loop_page_stop)
qed


theorem fetch_events_budgets_witness:
  "fetch_events (make_client 2 300) frozen_clock ''application'' 0
      ([page [0::nat] 0, page [1] 0] @ [page [2] 0, page [3] 0, page [4] 0]) =
     ([Get ''http://mock/dummy-path'' (Params (Since 0) ''demo''), Yield 0,
       Get ''http://mock/dummy-path'' (Params Next ''demo''), Yield 1], Finished)
   \<and> emitted (fst (fetch_events (make_client 2 300) frozen_clock ''application'' 0
      ([page [0::nat] 0, page [1] 0] @ [page [2] 0, page [3] 0, page [4] 0]))) = [0, 1]
   \<and> fetch_events (make_client 100 0) frozen_clock ''application'' 0
      (page [1::nat] 0 # [page [2] 0]) =
     ([Get ''http://mock/dummy-path'' (Params (Since 0) ''demo''), Yield 1], Finished)"
proof -
  have ep: "map_of (endpoint_paths (settings (make_client p d))) ''application''
      = Some ''/dummy-path''" for p d
    by (simp add: make_client_simps)
  have h1: "1 \<le> max_fetch_pages (settings (make_client 2 300))
          \<and> int (length [page [0::nat] 0, page [1] 0]) = max_fetch_pages (settings (make_client 2 300))
          \<and> (\<forall>r\<in>set [page [0::nat] 0, page [1] 0]. is_page r \<and> events_of r \<noteq> [])
          \<and> (\<forall>k. 1 \<le> k \<and> k < length [page [0::nat] 0, page [1] 0] \<longrightarrow>
                frozen_clock k - frozen_clock 0
                  < real_of_int (max_fetch_duration_seconds (settings (make_client 2 300))))"
    by (simp add: make_client_simps page_def raises_for_status_def events_of_body_def
        frozen_clock_def)
  have h2: "max_fetch_duration_seconds (settings (make_client 100 0)) = 0
          \<and> (\<forall>i j. i \<le> j \<longrightarrow> frozen_clock i \<le> frozen_clock j)
          \<and> is_page (page [1::nat] 0)"
    by (simp add: make_client_simps page_def raises_for_status_def frozen_clock_def)
  from fetch_events_budgets [OF ep, where pages = "[page [0::nat] 0, page [1] 0]"
      and clock = frozen_clock and since = 0 and later = "[page [2] 0, page [3] 0, page [4] 0]"
      and ?p1 = 2 and ?d1 = 300] h1
  have a: "fetch_events (make_client 2 300) frozen_clock ''application'' 0
      ([page [0::nat] 0, page [1] 0] @ [page [2] 0, page [3] 0, page [4] 0]) =
      (fst (fetch_events (make_client 2 300) frozen_clock ''application'' 0
         [page [0::nat] 0, page [1] 0]), Finished)
    \<and> emitted (fst (fetch_events (make_client 2 300) frozen_clock ''application'' 0
      ([page [0::nat] 0, page [1] 0] @ [page [2] 0, page [3] 0, page [4] 0]))) =
      concat (map events_of [page [0::nat] 0, page [1] 0])"
    by blast
  from fetch_events_budgets [OF ep, where r = "page [1::nat] 0"
      and clock = frozen_clock and since = 0 and later = "[page [2] 0]"
      and ?p1 = 100 and ?d1 = 0] h2
  have b: "fetch_events (make_client 100 0) frozen_clock ''application'' 0
      (page [1::nat] 0 # [page [2] 0]) =
      (Get (base_url (make_client 100 0) @ ''/dummy-path'')
         (Params (Since 0) (index (make_client 100 0))) # map Yield (events_of (page [1::nat] 0)),
       Finished)"
    by blast
  have c: "fst (fetch_events (make_client 2 300) frozen_clock ''application'' 0
         [page [0::nat] 0, page [1] 0]) =
     [Get ''http://mock/dummy-path'' (Params (Since 0) ''demo''), Yield 0,
       Get ''http://mock/dummy-path'' (Params Next ''demo''), Yield 1]"
    by (simp add: fetch_events_def make_client_simps page_def raises_for_status_def
        events_of_body_def wait_time_of_body_def frozen_clock_def prepend_def)
  from a b c show ?thesis
    by (simp add: make_client_simps page_def raises_for_status_def events_of_body_def)
qed

section \<open>Properties of the streaming uploader\<close>

subsection \<open>The checksum\<close>

lemma funpow8: "(f ^^ 8) x = f (f (f (f (f (f (f (f x)))))))"
  by (simp add: eval_nat_numeral)

lemma encode_abc: "encode ''abc'' = [97, 98, 99]"
  by (simp add: encode_def)

lemma zlib_crc32_abc: "zlib_crc32 [97, 98, 99] = 891568578"
  by (simp add: zlib_crc32_def crc32_update_def funpow8 crc32_bit_def)

lemma to_bytes_abc: "to_bytes_4_big 891568578 = [0x35, 0x24, 0x41, 0xC2]"
  by (simp add: to_bytes_4_big_def)

lemma b64_abc: "b64encode [0x35, 0x24, 0x41, 0xC2] = ''NSRBwg==''"
  by (simp add: b64_char_def b64_alphabet_def Let_def)

lemma crc32_mask: "zlib_crc32 data AND 0xFFFFFFFF = zlib_crc32 data"
proof -
  have "take_bit 32 (zlib_crc32 data) = zlib_crc32 data"
    unfolding zlib_crc32_def
    using uint_lt2p [of "foldl crc32_update 0xFFFFFFFF data XOR 0xFFFFFFFF"]
    by (intro take_bit_int_eq_self) simp_all
  then show ?thesis
    by (simp add: take_bit_eq_mask mask_eq_exp_minus_1)
qed

text \<open>
  Claim C9.  The checksum of the three bytes \<^verbatim>\<open>abc\<close> is \<^verbatim>\<open>NSRBwg==\<close>, and the checksum
  of any payload is its CRC-32, written as four bytes with the most significant first,
  in base64.
\<close>

theorem crc32_base64_abc:
  "crc32_base64 (encode ''abc'') = ''NSRBwg==''
   \<and> crc32_base64 data = b64encode (to_bytes_4_big (zlib_crc32 data))"
  by (simp add: crc32_base64_def crc32_mask encode_abc zlib_crc32_abc to_bytes_abc b64_abc
      del: b64encode.simps)

subsection \<open>The loop and the try block, case by case\<close>

lemma upload_part_call_eq:
  "upload_part_call s3 w payload key upload_id n =
     (upload_call w key upload_id n payload,
      case upload_part s3 n payload (crc32_base64 payload) of
        Inl e \<Rightarrow> Inl e
      | Inr etag \<Rightarrow> Inr (part_of n etag payload))"
  by (simp add: upload_part_call_def upload_call_def part_of_def Let_def split: sum.splits)

lemma feed_events_Cons:
  "feed_events G dumps s3 part_size w key upload_id (ev # evs) s =
     (case dumps ev of
        Inl e \<Rightarrow> ([], Inl e)
      | Inr line \<Rightarrow>
          (let s1 = next_state G s (encode line @ [10])
           in if length (buf s1) \<ge> part_size then
                (case upload_part s3 (part_no s) (closed_payload G s1)
                        (crc32_base64 (closed_payload G s1)) of
                   Inl e \<Rightarrow> ([upload_call w key upload_id (part_no s) (closed_payload G s1)], Inl e)
                 | Inr etag \<Rightarrow>
                     prepend [upload_call w key upload_id (part_no s) (closed_payload G s1)]
                       (feed_events G dumps s3 part_size w key upload_id evs
                          (fresh_state G (part_no s + 1)
                             (parts s @ [part_of (part_no s) etag (closed_payload G s1)]))))
              else feed_events G dumps s3 part_size w key upload_id evs s1))"
  by (simp add: next_state_def fresh_state_def closed_payload_def upload_part_call_eq Let_def
      split: sum.splits)

declare feed_events.simps(2) [simp del]

lemma feed_events_cases:
  fixes s :: "'z upload_state"
  obtains (Dumps) e where "dumps ev = Inl e"
      "feed_events G dumps s3 part_size w key upload_id (ev # evs) s = ([], Inl e)"
  | (Buffer) line where "dumps ev = Inr line"
      "length (buf (next_state G s (encode line @ [10]))) < part_size"
      "feed_events G dumps s3 part_size w key upload_id (ev # evs) s =
         feed_events G dumps s3 part_size w key upload_id evs (next_state G s (encode line @ [10]))"
  | (Failed) line e where "dumps ev = Inr line"
      "part_size \<le> length (buf (next_state G s (encode line @ [10])))"
      "upload_part s3 (part_no s) (closed_payload G (next_state G s (encode line @ [10])))
         (crc32_base64 (closed_payload G (next_state G s (encode line @ [10])))) = Inl e"
      "feed_events G dumps s3 part_size w key upload_id (ev # evs) s =
         ([upload_call w key upload_id (part_no s)
             (closed_payload G (next_state G s (encode line @ [10])))], Inl e)"
  | (Uploaded) line etag where "dumps ev = Inr line"
      "part_size \<le> length (buf (next_state G s (encode line @ [10])))"
      "upload_part s3 (part_no s) (closed_payload G (next_state G s (encode line @ [10])))
         (crc32_base64 (closed_payload G (next_state G s (encode line @ [10])))) = Inr etag"
      "feed_events G dumps s3 part_size w key upload_id (ev # evs) s =
         prepend [upload_call w key upload_id (part_no s)
             (closed_payload G (next_state G s (encode line @ [10])))]
           (feed_events G dumps s3 part_size w key upload_id evs
              (fresh_state G (part_no s + 1)
                 (parts s @ [part_of (part_no s) etag
                    (closed_payload G (next_state G s (encode line @ [10])))])))"
proof (cases "dumps ev")
  case (Inl e)
  then show ?thesis using Dumps by (simp add: feed_events_Cons)
next
  case (Inr line)
  let ?s1 = "next_state G s (encode line @ [10])"
  show ?thesis
  proof (cases "part_size \<le> length (buf ?s1)")
    case False
    with Inr show ?thesis using Buffer [of line]
      by (simp add: feed_events_Cons Let_def)
  next
    case True
    show ?thesis
    proof (cases "upload_part s3 (part_no s) (closed_payload G ?s1)
        (crc32_base64 (closed_payload G ?s1))")
      case (Inl e)
      with Inr True show ?thesis using Failed [of line e]
        by (simp add: feed_events_Cons Let_def)
    next
      case up: (Inr etag)
      with Inr True show ?thesis using Uploaded [of line etag]
        by (simp add: feed_events_Cons Let_def)
    qed
  qed
qed

lemma uploaded_append: "uploaded (xs @ ys) = uploaded xs @ uploaded ys"
  by (induction xs rule: uploaded.induct) simp_all

lemma completed_append: "completed (xs @ ys) = completed xs @ completed ys"
  by (induction xs rule: completed.induct) simp_all

lemma uploaded_upload_call:
  "uploaded (upload_call w key upload_id n payload # cs) =
     (n, payload, crc32_base64 payload) # uploaded cs"
  by (simp add: upload_call_def)

lemma completed_upload_call:
  "completed (upload_call w key upload_id n payload # cs) = completed cs"
  by (simp add: upload_call_def)

lemma state_simps:
  "part_no (next_state G s c) = part_no s"
  "parts (next_state G s c) = parts s"
  "part_no (fresh_state G n ps) = n"
  "parts (fresh_state G n ps) = ps"
  "buf (fresh_state G n ps) = snd (gz_open G)"
  "gz (fresh_state G n ps) = fst (gz_open G)"
  by (simp_all add: next_state_def fresh_state_def)

text \<open>Every call of the loop is a part upload to the same session, with the checksum of its body.\<close>

lemma feed_events_calls:
  "fst (feed_events G dumps s3 part_size w key upload_id evs s) =
     map (\<lambda>u. upload_call w key upload_id (fst u) (fst (snd u)))
       (uploaded (fst (feed_events G dumps s3 part_size w key upload_id evs s)))
   \<and> (\<forall>u\<in>set (uploaded (fst (feed_events G dumps s3 part_size w key upload_id evs s))).
        snd (snd u) = crc32_base64 (fst (snd u)))
   \<and> completed (fst (feed_events G dumps s3 part_size w key upload_id evs s)) = []"
proof (induction evs arbitrary: s)
  case Nil
  then show ?case by simp
next
  case (Cons ev evs)
  show ?case
  proof (cases rule: feed_events_cases [of dumps ev G s3 part_size w key upload_id evs s])
    case (Dumps e)
    then show ?thesis by simp
  next
    case (Buffer line)
    with Cons.IH [of "next_state G s (encode line @ [10])"] show ?thesis by simp
  next
    case (Failed line e)
    then show ?thesis by (simp add: uploaded_upload_call completed_upload_call)
  next
    case (Uploaded line etag)
    with Cons.IH [of "fresh_state G (part_no s + 1)
        (parts s @ [part_of (part_no s) etag (closed_payload G (next_state G s (encode line @ [10])))])"]
    show ?thesis
      by (simp add: fst_prepend uploaded_append completed_append uploaded_upload_call
          completed_upload_call)
  qed
qed

text \<open>A loop that ends without exception: numbering, part list, and every upload acknowledged.\<close>

lemma feed_events_success:
  assumes "snd (feed_events G dumps s3 part_size w key upload_id evs s) = Inr s'"
  shows "map fst (uploaded (fst (feed_events G dumps s3 part_size w key upload_id evs s))) =
           [part_no s..<part_no s']
   \<and> part_no s \<le> part_no s'
   \<and> part_list (parts s') = part_list (parts s) @
        map (listed_part s3) (uploaded (fst (feed_events G dumps s3 part_size w key upload_id evs s)))
   \<and> (\<forall>u\<in>set (uploaded (fst (feed_events G dumps s3 part_size w key upload_id evs s))).
        \<exists>t. upload_part s3 (fst u) (fst (snd u)) (snd (snd u)) = Inr t)
   \<and> (\<forall>ev\<in>set evs. \<exists>line. dumps ev = Inr line)"
  using assms
proof (induction evs arbitrary: s)
  case Nil
  then show ?case by simp
next
  case (Cons ev evs)
  show ?case
  proof (cases rule: feed_events_cases [of dumps ev G s3 part_size w key upload_id evs s])
    case (Dumps e)
    with Cons.prems show ?thesis by simp
  next
    case (Buffer line)
    with Cons.prems Cons.IH [of "next_state G s (encode line @ [10])"] show ?thesis
      by (simp add: state_simps)
  next
    case (Failed line e)
    with Cons.prems show ?thesis by simp
  next
    case (Uploaded line etag)
    let ?p = "closed_payload G (next_state G s (encode line @ [10]))"
    let ?s1 = "fresh_state G (part_no s + 1) (parts s @ [part_of (part_no s) etag ?p])"
    from Uploaded Cons.prems
    have ok: "snd (feed_events G dumps s3 part_size w key upload_id evs ?s1) = Inr s'"
      by (simp add: snd_prepend)
    note ih = Cons.IH [OF ok]
    from ih have le: "Suc (part_no s) \<le> part_no s'" by (simp add: state_simps)
    have upt: "[part_no s..<part_no s'] = part_no s # [Suc (part_no s)..<part_no s']"
      using le by (simp add: upt_conv_Cons)
    have lp: "listed_part s3 (part_no s, ?p, crc32_base64 ?p) =
        (PartNumber (part_of (part_no s) etag ?p), ETag (part_of (part_no s) etag ?p),
         ChecksumCRC32 (part_of (part_no s) etag ?p))"
      using Uploaded(3) by (simp add: listed_part_def etag_of_def part_of_def split: option.splits)
    from ih Uploaded le upt lp show ?thesis
      by (simp add: fst_prepend uploaded_append uploaded_upload_call state_simps part_list_def)
  qed
qed


text \<open>The buffer and the compressor state are those of one member under construction.\<close>

lemma gz_feed_snoc:
  "gz_feed G zb (cs @ [c]) =
     (fst (gz_write G (fst (gz_feed G zb cs)) c),
      snd (gz_feed G zb cs) @ snd (gz_write G (fst (gz_feed G zb cs)) c))"
  by (induction cs arbitrary: zb) simp_all

lemma tracks_next:
  "gz_feed G (gz_open G) cs = (gz s, buf s) \<Longrightarrow>
   gz_feed G (gz_open G) (cs @ [c]) = (gz (next_state G s c), buf (next_state G s c))"
  by (simp add: gz_feed_snoc next_state_def)

lemma tracks_fresh:
  "gz_feed G (gz_open G) [] = (gz (fresh_state G n ps), buf (fresh_state G n ps))"
  by (simp add: fresh_state_def)

lemma tracks_member:
  "gz_feed G (gz_open G) cs = (gz s, buf s) \<Longrightarrow> closed_payload G s = gz_member G cs"
  by (simp add: closed_payload_def gz_member_def)

lemma feed_events_members:
  assumes "snd (feed_events G dumps s3 part_size w key upload_id evs s) = Inr s'"
    and "gz_feed G (gz_open G) cs = (gz s, buf s)"
  shows "\<exists>ms cs'. gz_feed G (gz_open G) cs' = (gz s', buf s')
     \<and> map (\<lambda>u. fst (snd u))
         (uploaded (fst (feed_events G dumps s3 part_size w key upload_id evs s))) =
       map (gz_member G) ms
     \<and> concat (map concat ms) @ concat cs' =
       concat cs @ concat (map (\<lambda>ev. serialized dumps ev @ [10]) evs)"
  using assms
proof (induction evs arbitrary: s cs)
  case Nil
  then show ?case
    by (intro exI [of _ "[]"] exI [of _ cs]) simp
next
  case (Cons ev evs)
  show ?case
  proof (cases rule: feed_events_cases [of dumps ev G s3 part_size w key upload_id evs s])
    case (Dumps e)
    with Cons.prems show ?thesis by simp
  next
    case (Buffer line)
    let ?c = "encode line @ [10]"
    from Buffer Cons.prems
    have ok: "snd (feed_events G dumps s3 part_size w key upload_id evs (next_state G s ?c)) = Inr s'"
      by simp
    from Cons.IH [OF ok tracks_next [OF Cons.prems(2)]] obtain ms cs' where
      m: "gz_feed G (gz_open G) cs' = (gz s', buf s')"
        "map (\<lambda>u. fst (snd u))
           (uploaded (fst (feed_events G dumps s3 part_size w key upload_id evs (next_state G s ?c)))) =
         map (gz_member G) ms"
        "concat (map concat ms) @ concat cs' =
         concat (cs @ [?c]) @ concat (map (\<lambda>ev. serialized dumps ev @ [10]) evs)"
      by blast
    from Buffer(1) have ser: "serialized dumps ev = encode line"
      by (simp add: serialized_def)
    from m Buffer ser show ?thesis
      by (intro exI [of _ ms] exI [of _ cs']) simp
  next
    case (Failed line e)
    with Cons.prems show ?thesis by simp
  next
    case (Uploaded line etag)
    let ?c = "encode line @ [10]"
    let ?p = "closed_payload G (next_state G s ?c)"
    let ?s1 = "fresh_state G (part_no s + 1) (parts s @ [part_of (part_no s) etag ?p])"
    from Uploaded Cons.prems
    have ok: "snd (feed_events G dumps s3 part_size w key upload_id evs ?s1) = Inr s'"
      by (simp add: snd_prepend)
    from Cons.IH [OF ok tracks_fresh] obtain ms cs' where
      m: "gz_feed G (gz_open G) cs' = (gz s', buf s')"
        "map (\<lambda>u. fst (snd u))
           (uploaded (fst (feed_events G dumps s3 part_size w key upload_id evs ?s1))) =
         map (gz_member G) ms"
        "concat (map concat ms) @ concat cs' =
         concat [] @ concat (map (\<lambda>ev. serialized dumps ev @ [10]) evs)"
      by blast
    have mem: "?p = gz_member G (cs @ [?c])"
      by (rule tracks_member [OF tracks_next [OF Cons.prems(2)]])
    from Uploaded(1) have ser: "serialized dumps ev = encode line"
      by (simp add: serialized_def)
    from m Uploaded(4) mem ser show ?thesis
      by (intro exI [of _ "(cs @ [?c]) # ms"] exI [of _ cs'])
         (simp add: fst_prepend uploaded_upload_call)
  qed
qed

lemma feed_events_small:
  assumes "snd (feed_events G dumps s3 part_size w key upload_id evs s) = Inr s'"
    and "uploaded (fst (feed_events G dumps s3 part_size w key upload_id evs s)) = []"
    and "evs \<noteq> []"
  shows "length (buf s') < part_size"
  using assms
proof (induction evs arbitrary: s)
  case Nil
  then show ?case by simp
next
  case (Cons ev evs)
  show ?case
  proof (cases rule: feed_events_cases [of dumps ev G s3 part_size w key upload_id evs s])
    case (Dumps e)
    with Cons.prems show ?thesis by simp
  next
    case (Buffer line)
    show ?thesis
    proof (cases "evs = []")
      case True
      with Buffer Cons.prems show ?thesis by simp
    next
      case False
      with Buffer Cons.prems Cons.IH [of "next_state G s (encode line @ [10])"]
      show ?thesis by simp
    qed
  next
    case (Failed line e)
    with Cons.prems show ?thesis by simp
  next
    case (Uploaded line etag)
    with Cons.prems show ?thesis
      by (simp add: fst_prepend uploaded_upload_call)
  qed
qed

lemma feed_events_total:
  assumes "\<forall>ev\<in>set evs. \<exists>line. dumps ev = Inr line"
    and "\<forall>n body ck. \<exists>t. upload_part s3 n body ck = Inr t"
  shows "\<exists>s'. snd (feed_events G dumps s3 part_size w key upload_id evs s) = Inr s'"
  using assms
proof (induction evs arbitrary: s)
  case Nil
  then show ?case by simp
next
  case (Cons ev evs)
  show ?case
  proof (cases rule: feed_events_cases [of dumps ev G s3 part_size w key upload_id evs s])
    case (Dumps e)
    with Cons.prems show ?thesis by simp
  next
    case (Buffer line)
    with Cons.prems Cons.IH [of "next_state G s (encode line @ [10])"] show ?thesis by simp
  next
    case (Failed line e)
    with Cons.prems(2) show ?thesis by (metis sum.distinct(1))
  next
    case (Uploaded line etag)
    with Cons.prems Cons.IH [of "fresh_state G (part_no s + 1)
        (parts s @ [part_of (part_no s) etag (closed_payload G (next_state G s (encode line @ [10])))])"]
    show ?thesis by (simp add: snd_prepend)
  qed
qed

lemma lines_from_line:
  "10 \<notin> set l \<Longrightarrow> lines_from cur (l @ 10 # rest) = (cur @ l) # lines_from [] rest"
  by (induction l arbitrary: cur) auto

lemma lines_of_lines:
  "\<forall>l\<in>set ls. 10 \<notin> set l \<Longrightarrow> lines_of (concat (map (\<lambda>l. l @ [10]) ls)) = ls"
proof (induction ls)
  case Nil
  then show ?case by (simp add: lines_of_def)
next
  case (Cons l ls)
  then show ?case using lines_from_line [of l "[]"]
    by (simp add: lines_of_def)
qed


lemma try_upload_eq:
  "try_upload G dumps s3 part_size w key upload_id events iter_error =
     (let fed = feed_events G dumps s3 part_size w key upload_id events (fresh_state G 1 [])
      in case snd fed of
           Inl e \<Rightarrow> (fst fed, Inl e)
         | Inr s \<Rightarrow>
             (case iter_error of
                Some e \<Rightarrow> (fst fed, Inl e)
              | None \<Rightarrow>
                  (case upload_part s3 (part_no s) (closed_payload G s)
                          (crc32_base64 (closed_payload G s)) of
                     Inl e \<Rightarrow>
                       (fst fed @ [upload_call w key upload_id (part_no s) (closed_payload G s)],
                        Inl e)
                   | Inr etag \<Rightarrow>
                       (case complete_multipart_upload s3
                               (part_list (parts s @ [part_of (part_no s) etag (closed_payload G s)])) of
                          Inl e \<Rightarrow>
                            (fst fed @ [upload_call w key upload_id (part_no s) (closed_payload G s),
                               CompleteMultipartUpload (bucket w) key upload_id
                                 (part_list (parts s @ [part_of (part_no s) etag (closed_payload G s)]))],
                             Inl e)
                        | Inr u \<Rightarrow>
                            (fst fed @ [upload_call w key upload_id (part_no s) (closed_payload G s),
                               CompleteMultipartUpload (bucket w) key upload_id
                                 (part_list (parts s @ [part_of (part_no s) etag (closed_payload G s)]))],
                             Inr key)))))"
  by (simp add: try_upload_def fresh_state_def closed_payload_def upload_part_call_eq Let_def
      split: sum.splits option.splits)


lemma try_upload_success:
  assumes "snd (try_upload G dumps s3 part_size w key upload_id events iter_error) = Inr k"
  obtains s' etag where
    "snd (feed_events G dumps s3 part_size w key upload_id events (fresh_state G 1 [])) = Inr s'"
    "iter_error = None"
    "upload_part s3 (part_no s') (closed_payload G s') (crc32_base64 (closed_payload G s')) = Inr etag"
    "k = key"
    "fst (try_upload G dumps s3 part_size w key upload_id events iter_error) =
       fst (feed_events G dumps s3 part_size w key upload_id events (fresh_state G 1 []))
       @ [upload_call w key upload_id (part_no s') (closed_payload G s'),
          CompleteMultipartUpload (bucket w) key upload_id
            (part_list (parts s' @ [part_of (part_no s') etag (closed_payload G s')]))]"
  using assms
  by (auto simp: try_upload_eq Let_def split: sum.splits option.splits)

lemma write_events_success:
  assumes "snd (write_events G dumps s3 part_size w now events iter_error endpoint) = Inr k"
  obtains upload_id where
    "create_multipart_upload s3 = Inr upload_id"
    "snd (try_upload G dumps s3 part_size w (object_key w now endpoint) upload_id events iter_error)
       = Inr k"
    "fst (write_events G dumps s3 part_size w now events iter_error endpoint) =
       CreateMultipartUpload (bucket w) (object_key w now endpoint)
       # fst (try_upload G dumps s3 part_size w (object_key w now endpoint) upload_id events iter_error)"
  using assms
  by (auto simp: write_events_def Let_def split: sum.splits)

lemma write_events_total:
  assumes "create_multipart_upload s3 = Inr upload_id"
    and "\<forall>ev\<in>set events. \<exists>line. dumps ev = Inr line"
    and "\<forall>n body ck. \<exists>t. upload_part s3 n body ck = Inr t"
    and "\<forall>ps. complete_multipart_upload s3 ps = Inr ()"
  shows "snd (write_events G dumps s3 part_size w now events None endpoint) =
     Inr (object_key w now endpoint)"
proof -
  let ?key = "object_key w now endpoint"
  from feed_events_total [OF assms(2,3)] obtain s' where
    fed: "snd (feed_events G dumps s3 part_size w ?key upload_id events (fresh_state G 1 [])) = Inr s'"
    by blast
  from assms(3) obtain t where
    up: "upload_part s3 (part_no s') (closed_payload G s') (crc32_base64 (closed_payload G s')) = Inr t"
    by blast
  from fed up assms(4)
  have "snd (try_upload G dumps s3 part_size w ?key upload_id events None) = Inr ?key"
    by (simp add: try_upload_eq Let_def)
  with assms(1) show ?thesis
    by (simp add: write_events_def Let_def)
qed

subsection \<open>Runs with the stand-ins\<close>

lemma DummyS3_simps:
  "create_multipart_upload DummyS3 = Inr ''u-1''"
  "upload_part DummyS3 n body ck = Inr (Some (''etag-'' @ [digit_char n]))"
  "complete_multipart_upload DummyS3 ps = Inr ()"
  "abort_multipart_upload DummyS3 = Inr ()"
  by (simp_all add: DummyS3_def dummy_upload_part_def dummy_complete_def)


lemma dumps_id_ok: "\<forall>ev\<in>set events. \<exists>line. dumps_id ev = Inr line"
  by (simp add: dumps_id_def)

lemma DummyS3_run:
  "snd (write_events G dumps_id DummyS3 part_size w now events None endpoint) =
     Inr (object_key w now endpoint)"
  by (rule write_events_total [OF DummyS3_simps(1) dumps_id_ok]) (simp_all add: DummyS3_simps)

lemma S3Writer_init_simps:
  "bucket (S3Writer_init b p) = b"
  "prefix (S3Writer_init b p) = (if p \<noteq> [] then rstrip_slash p @ ''/'' else [])"
  by (simp_all add: S3Writer_init_def)

lemma noon_key:
  "object_key w noon ''alert'' = prefix w @ ''alert/2025/05/26/050246.jsonl.gz''"
  by (simp add: object_key_def date_folder_def fname_def noon_def pad2_def pad4_def digit_char_def)

subsection \<open>The object key\<close>

lemma rstrip_slash_no_trailing: "rstrip_slash p = [] \<or> last (rstrip_slash p) \<noteq> CHR ''/''"
proof (cases "dropWhile (\<lambda>c. c = CHR ''/'') (rev p)")
  case Nil
  then show ?thesis by (simp add: rstrip_slash_def)
next
  case (Cons c cs)
  then have "c \<noteq> CHR ''/''"
    using hd_dropWhile [of "\<lambda>c. c = CHR ''/''" "rev p"] by simp
  with Cons show ?thesis by (simp add: rstrip_slash_def)
qed

lemma takeWhile_eq_replicate: "takeWhile (\<lambda>c. c = x) xs = replicate (length (takeWhile (\<lambda>c. c = x) xs)) x"
  by (induction xs) auto

lemma rstrip_slash_strips:
  "p = rstrip_slash p @ replicate (length p - length (rstrip_slash p)) CHR ''/''"
proof -
  let ?P = "\<lambda>c. c = CHR ''/''"
  have "rev (takeWhile ?P (rev p) @ dropWhile ?P (rev p)) = p"
    by (simp only: takeWhile_dropWhile_id rev_rev_ident)
  then have "rev (dropWhile ?P (rev p)) @ rev (takeWhile ?P (rev p)) = p"
    by (simp only: rev_append)
  then have p: "p = rstrip_slash p @ rev (takeWhile ?P (rev p))"
    by (simp only: rstrip_slash_def)
  have "length p = length (rstrip_slash p) + length (takeWhile ?P (rev p))"
    using arg_cong [OF p, of length] by simp
  then have n: "length (takeWhile ?P (rev p)) = length p - length (rstrip_slash p)" by simp
  have "rev (takeWhile ?P (rev p)) = replicate (length p - length (rstrip_slash p)) CHR ''/''"
    using takeWhile_eq_replicate [of "CHR ''/''" "rev p"] n by (metis rev_replicate)
  with p show ?thesis by simp
qed

text \<open>
  Claim C10.  For a writer made from the prefix \<open>p\<close>, every key that \<^verbatim>\<open>write_events\<close>
  returns is, for a non-empty \<open>p\<close>, \<open>p\<close> without its trailing slashes, one slash, the
  endpoint, a slash, the date folder, a slash and the file name, and for the empty prefix
  the same from the endpoint on.  What is cut from \<open>p\<close> is slashes only, and what is left
  does not end with a slash, so there is exactly one slash between prefix and endpoint.
\<close>

theorem write_events_key_prefix:
  assumes "snd (write_events G dumps s3 part_size (S3Writer_init bkt p) now events iter_error
      endpoint) = Inr key"
  shows "(p \<noteq> [] \<longrightarrow>
            key = rstrip_slash p @ ''/'' @ endpoint @ ''/'' @ date_folder now @ ''/'' @ fname now)
     \<and> (p = [] \<longrightarrow> key = endpoint @ ''/'' @ date_folder now @ ''/'' @ fname now)
     \<and> p = rstrip_slash p @ replicate (length p - length (rstrip_slash p)) CHR ''/''
     \<and> (rstrip_slash p = [] \<or> last (rstrip_slash p) \<noteq> CHR ''/'')"
proof -
  from assms obtain upload_id where
    "snd (try_upload G dumps s3 part_size (S3Writer_init bkt p)
       (object_key (S3Writer_init bkt p) now endpoint) upload_id events iter_error) = Inr key"
    by (rule write_events_success)
  then have "key = object_key (S3Writer_init bkt p) now endpoint"
    by (rule try_upload_success)
  then have "(p \<noteq> [] \<longrightarrow>
            key = rstrip_slash p @ ''/'' @ endpoint @ ''/'' @ date_folder now @ ''/'' @ fname now)
     \<and> (p = [] \<longrightarrow> key = endpoint @ ''/'' @ date_folder now @ ''/'' @ fname now)"
    by (simp add: object_key_def S3Writer_init_def)
  with rstrip_slash_strips [of p] rstrip_slash_no_trailing [of p] show ?thesis by blast
qed

theorem write_events_key_prefix_witness:
  "snd (write_events plain_gzip dumps_id DummyS3 40 (S3Writer_init ''bkt'' ''logs//'') noon
          [''a'', ''b'', ''c''] None ''alert'') = Inr ''logs/alert/2025/05/26/050246.jsonl.gz''
   \<and> ''logs//'' \<noteq> []
   \<and> ''logs/alert/2025/05/26/050246.jsonl.gz'' =
        rstrip_slash ''logs//'' @ ''/'' @ ''alert'' @ ''/'' @ date_folder noon @ ''/'' @ fname noon
   \<and> rstrip_slash ''logs//'' = ''logs''"
proof -
  have run: "snd (write_events plain_gzip dumps_id DummyS3 40 (S3Writer_init ''bkt'' ''logs//'') noon
          [''a'', ''b'', ''c''] None ''alert'') = Inr ''logs/alert/2025/05/26/050246.jsonl.gz''"
    by (simp add: DummyS3_run noon_key S3Writer_init_simps rstrip_slash_def)
  from write_events_key_prefix [OF run] show ?thesis
    using run by (simp add: rstrip_slash_def)
qed

subsection \<open>Failure and abort\<close>





subsection \<open>The stand-in compressor keeps the promise of the library\<close>

lemma plain_feed:
  "gz_feed plain_gzip (z, out) cs = ((), out @ concat (map (\<lambda>b. [1, b]) (concat cs)))"
  by (induction cs arbitrary: z out) (simp_all add: plain_gzip_def plain_write_def)

lemma plain_member:
  "gz_member plain_gzip cs = [31, 139] @ concat (map (\<lambda>b. [1, b]) (concat cs)) @ [0]"
proof -
  have "gz_open plain_gzip = ((), [31, 139])" by (simp add: plain_gzip_def)
  then show ?thesis
    by (simp add: gz_member_def plain_feed) (simp add: plain_gzip_def plain_close_def)
qed

lemma plain_gunzip_literals:
  "plain_gunzip_from Marker (concat (map (\<lambda>b. [1, b]) d) @ rest) =
     map_option ((@) d) (plain_gunzip_from Marker rest)"
  by (induction d) (simp_all add: option.map_comp comp_def option.map_ident)

lemma plain_gunzip_member:
  "plain_gunzip_from Magic1 (gz_member plain_gzip cs @ rest) =
     map_option ((@) (concat cs)) (plain_gunzip_from Magic1 rest)"
  using plain_gunzip_literals [of "concat cs" "0 # rest"]
  by (simp add: plain_member)

lemma plain_gzip_sound: "gzip_sound plain_gzip plain_gunzip"
proof -
  have "plain_gunzip_from Magic1 (concat (map (gz_member plain_gzip) ms)) =
      Some (concat (map concat ms))" for ms
    by (induction ms) (simp_all add: plain_gunzip_member)
  then show ?thesis by (simp add: gzip_sound_def plain_gunzip_def)
qed

lemma plain_gzip_flush_bounded: "2 \<le> n \<Longrightarrow> gzip_flush_bounded plain_gzip n"
  by (simp add: gzip_flush_bounded_def plain_gzip_def plain_close_def)

lemma dumps_id_a: "serialized dumps_id ''a'' = [123, 34, 105, 100, 34, 58, 34, 97, 34, 125]"
  by (simp add: serialized_def dumps_id_def encode_def)

lemma dumps_id_b: "serialized dumps_id ''b'' = [123, 34, 105, 100, 34, 58, 34, 98, 34, 125]"
  by (simp add: serialized_def dumps_id_def encode_def)

lemma two_events_uploaded:
  "map (\<lambda>u. (fst u, length (fst (snd u))))
     (uploaded (fst (write_events plain_gzip dumps_id DummyS3 20 (S3Writer_init ''bkt'' []) noon
        [''a'', ''b''] None ''alert''))) = [(1, 25), (2, 25), (3, 3)]"
  by (simp add: write_events_def try_upload_eq feed_events_Cons DummyS3_simps dumps_id_def Let_def
      next_state_def fresh_state_def closed_payload_def plain_gzip_def plain_write_def
      plain_close_def encode_def uploaded_append uploaded_upload_call fst_prepend snd_prepend)

subsection \<open>Parts of a successful upload\<close>

lemma write_events_done:
  assumes "snd (write_events G dumps s3 part_size w now events iter_error endpoint) = Inr key"
  obtains upload_id s' etag where
    "key = object_key w now endpoint"
    "snd (feed_events G dumps s3 part_size w key upload_id events (fresh_state G 1 [])) = Inr s'"
    "upload_part s3 (part_no s') (closed_payload G s') (crc32_base64 (closed_payload G s')) = Inr etag"
    "fst (write_events G dumps s3 part_size w now events iter_error endpoint) =
       CreateMultipartUpload (bucket w) key
       # fst (feed_events G dumps s3 part_size w key upload_id events (fresh_state G 1 []))
       @ [upload_call w key upload_id (part_no s') (closed_payload G s'),
          CompleteMultipartUpload (bucket w) key upload_id
            (part_list (parts s' @ [part_of (part_no s') etag (closed_payload G s')]))]"
proof -
  from assms obtain upload_id where
    t: "snd (try_upload G dumps s3 part_size w (object_key w now endpoint) upload_id events
          iter_error) = Inr key"
    and c: "fst (write_events G dumps s3 part_size w now events iter_error endpoint) =
       CreateMultipartUpload (bucket w) (object_key w now endpoint)
       # fst (try_upload G dumps s3 part_size w (object_key w now endpoint) upload_id events iter_error)"
    by (rule write_events_success)
  from t show ?thesis
  proof (rule try_upload_success)
    fix s' etag
    assume "snd (feed_events G dumps s3 part_size w (object_key w now endpoint) upload_id events
          (fresh_state G 1 [])) = Inr s'"
      "upload_part s3 (part_no s') (closed_payload G s') (crc32_base64 (closed_payload G s')) = Inr etag"
      "key = object_key w now endpoint"
      "fst (try_upload G dumps s3 part_size w (object_key w now endpoint) upload_id events iter_error) =
       fst (feed_events G dumps s3 part_size w (object_key w now endpoint) upload_id events
              (fresh_state G 1 []))
       @ [upload_call w (object_key w now endpoint) upload_id (part_no s') (closed_payload G s'),
          CompleteMultipartUpload (bucket w) (object_key w now endpoint) upload_id
            (part_list (parts s' @ [part_of (part_no s') etag (closed_payload G s')]))]"
    with c that [of upload_id s' etag] show ?thesis by simp
  qed
qed

lemma uploaded_complete:
  "uploaded (CompleteMultipartUpload b k u ps # cs) = uploaded cs"
  "uploaded (CreateMultipartUpload b k # cs) = uploaded cs"
  by simp_all

text \<open>
  Claim C4.  In a run of \<^verbatim>\<open>write_events\<close> that returns a key: the part numbers of the
  uploads are 1, 2, ... without gap; the checksum sent with each part is
  \<^verbatim>\<open>_crc32_base64\<close> of the body of that part; the calls are the creation of the session,
  the part uploads, and one completion call that lists exactly the uploaded parts in the
  order of their numbers, each with its number, the \<^verbatim>\<open>ETag\<close> the service returned for it
  and its checksum; and, for a compressor that never holds back more than a part size,
  if the stored object is larger than twice the part size then at least two parts were
  uploaded.
\<close>

theorem write_events_parts:
  assumes ok: "write_events G dumps s3 part_size w now events iter_error endpoint = (calls, Inr key)"
  shows "map fst (uploaded calls) = [1..<Suc (length (uploaded calls))]
    \<and> (\<forall>u\<in>set (uploaded calls). snd (snd u) = crc32_base64 (fst (snd u)))
    \<and> (\<exists>upload_id. calls =
          CreateMultipartUpload (bucket w) key
          # map (\<lambda>u. UploadPart (bucket w) key (fst u) upload_id (fst (snd u)) (snd (snd u)))
              (uploaded calls)
          @ [CompleteMultipartUpload (bucket w) key upload_id (map (listed_part s3) (uploaded calls))])
    \<and> (gzip_flush_bounded G part_size \<and> 2 * part_size < length (stored_object calls)
         \<longrightarrow> 2 \<le> length (uploaded calls))"
proof -
  from ok have r: "snd (write_events G dumps s3 part_size w now events iter_error endpoint) = Inr key"
    and c: "fst (write_events G dumps s3 part_size w now events iter_error endpoint) = calls"
    by simp_all
  from r show ?thesis
  proof (rule write_events_done)
    fix upload_id s' etag
    let ?fed = "feed_events G dumps s3 part_size w key upload_id events (fresh_state G 1 [])"
    let ?U = "uploaded (fst ?fed)"
    let ?P = "closed_payload G s'"
    let ?last = "(part_no s', ?P, crc32_base64 ?P)"
    assume fed: "snd ?fed = Inr s'"
      and up: "upload_part s3 (part_no s') ?P (crc32_base64 ?P) = Inr etag"
      and calls: "fst (write_events G dumps s3 part_size w now events iter_error endpoint) =
       CreateMultipartUpload (bucket w) key # fst ?fed
       @ [upload_call w key upload_id (part_no s') ?P,
          CompleteMultipartUpload (bucket w) key upload_id
            (part_list (parts s' @ [part_of (part_no s') etag ?P]))]"
    note fc = feed_events_calls [of G dumps s3 part_size w key upload_id events "fresh_state G 1 []"]
    note fs = feed_events_success [OF fed]
    from calls c have U: "uploaded calls = ?U @ [?last]"
      by (auto simp: uploaded_append uploaded_upload_call)
    from fs have nums: "map fst ?U = [1..<part_no s']" and one: "1 \<le> part_no s'"
      by (simp_all add: state_simps)
    have "length (map fst ?U) = length [1..<part_no s']"
      by (simp only: nums)
    then have len: "length ?U = part_no s' - 1" by simp
    with one U have lenU: "length (uploaded calls) = part_no s'" by simp
    have a: "map fst (uploaded calls) = [1..<Suc (length (uploaded calls))]"
      using U nums one lenU by simp
    have b: "\<forall>u\<in>set (uploaded calls). snd (snd u) = crc32_base64 (fst (snd u))"
      using U fc by auto
    have lp: "listed_part s3 ?last =
        (PartNumber (part_of (part_no s') etag ?P), ETag (part_of (part_no s') etag ?P),
         ChecksumCRC32 (part_of (part_no s') etag ?P))"
      using up by (simp add: listed_part_def etag_of_def part_of_def split: option.splits)
    from fs have "part_list (parts s') = map (listed_part s3) ?U"
      by (simp add: state_simps part_list_def)
    with lp have listed: "part_list (parts s' @ [part_of (part_no s') etag ?P]) =
        map (listed_part s3) (uploaded calls)"
      by (simp add: U part_list_def)
    have ups: "map (\<lambda>u. UploadPart (bucket w) key (fst u) upload_id (fst (snd u)) (snd (snd u)))
          (uploaded calls) = fst ?fed @ [upload_call w key upload_id (part_no s') ?P]"
    proof -
      have "map (\<lambda>u. UploadPart (bucket w) key (fst u) upload_id (fst (snd u)) (snd (snd u))) ?U =
          map (\<lambda>u. upload_call w key upload_id (fst u) (fst (snd u))) ?U"
        using fc by (intro map_cong) (auto simp: upload_call_def)
      with fc show ?thesis by (simp add: U upload_call_def)
    qed
    have cc: "calls = CreateMultipartUpload (bucket w) key
          # map (\<lambda>u. UploadPart (bucket w) key (fst u) upload_id (fst (snd u)) (snd (snd u)))
              (uploaded calls)
          @ [CompleteMultipartUpload (bucket w) key upload_id (map (listed_part s3) (uploaded calls))]"
      using calls c by (simp add: ups listed)
    have d: "gzip_flush_bounded G part_size \<and> 2 * part_size < length (stored_object calls)
         \<longrightarrow> 2 \<le> length (uploaded calls)"
    proof (intro impI, rule ccontr)
      assume h: "gzip_flush_bounded G part_size \<and> 2 * part_size < length (stored_object calls)"
      assume "\<not> 2 \<le> length (uploaded calls)"
      with lenU len have "length ?U = 0" by linarith
      then have empty: "?U = []" by simp
      with U have obj: "stored_object calls = buf s' @ gz_close G (gz s')"
        by (simp add: stored_object_def closed_payload_def)
      from h have close: "length (gz_close G (gz s')) \<le> part_size"
        and hdr: "length (snd (gz_open G)) \<le> part_size"
        by (simp_all add: gzip_flush_bounded_def)
      have "length (buf s') \<le> part_size"
      proof (cases "events = []")
        case True
        with fed hdr show ?thesis by (auto simp: state_simps)
      next
        case False
        from feed_events_small [OF fed empty False] show ?thesis by simp
      qed
      with close obj h show False by simp
    qed
    from a b cc d show ?thesis by blast
  qed
qed

theorem write_events_parts_witness:
  "map fst (uploaded (fst (write_events plain_gzip dumps_id DummyS3 20 (S3Writer_init ''bkt'' [])
      noon [''a'', ''b''] None ''alert''))) = [1, 2, 3]
   \<and> gzip_flush_bounded plain_gzip 20
   \<and> 2 * 20 < length (stored_object (fst (write_events plain_gzip dumps_id DummyS3 20
        (S3Writer_init ''bkt'' []) noon [''a'', ''b''] None ''alert'')))
   \<and> 2 \<le> length (uploaded (fst (write_events plain_gzip dumps_id DummyS3 20
        (S3Writer_init ''bkt'' []) noon [''a'', ''b''] None ''alert'')))"
proof -
  let ?run = "write_events plain_gzip dumps_id DummyS3 20 (S3Writer_init ''bkt'' []) noon
      [''a'', ''b''] None ''alert''"
  have ok: "?run = (fst ?run, Inr (object_key (S3Writer_init ''bkt'' []) noon ''alert''))"
    using DummyS3_run [of plain_gzip 20 "S3Writer_init ''bkt'' []" noon "[''a'', ''b'']" "''alert''"]
    by (metis prod.collapse)
  have bounded: "gzip_flush_bounded plain_gzip 20"
    by (rule plain_gzip_flush_bounded) simp
  have "map (length \<circ> (\<lambda>u. fst (snd u))) (uploaded (fst ?run)) = [25, 25, 3]"
    using arg_cong [OF two_events_uploaded, of "map snd"] by (simp add: comp_def)
  then have size: "2 * 20 < length (stored_object (fst ?run))"
    by (simp add: stored_object_def length_concat comp_def)
  from write_events_parts [OF ok] bounded size
  have "map fst (uploaded (fst ?run)) = [1..<Suc (length (uploaded (fst ?run)))]
      \<and> 2 \<le> length (uploaded (fst ?run))"
    by blast
  moreover have "length (uploaded (fst ?run)) = 3"
    using arg_cong [OF two_events_uploaded, of length] by simp
  ultimately show ?thesis using bounded size
    by (simp add: upt_rec)
qed

subsection \<open>Round trip\<close>

text \<open>
  Claim C2.  With a gzip library whose decompressor inverts concatenated members and a
  serialiser that writes no raw newline, in a run of \<^verbatim>\<open>write_events\<close> that returns a key
  the stored object (the uploaded part bodies, concatenated) decompresses to the
  serialised events, each followed by a newline, in input order, and splitting that at
  newlines gives back exactly the serialised events.  For no events at all, exactly one
  part is uploaded, an empty member, which decompresses to nothing: zero lines.
\<close>

theorem write_events_roundtrip:
  assumes sound: "gzip_sound G gunzip"
    and ok: "snd (write_events G dumps s3 part_size w now events iter_error endpoint) = Inr key"
    and nl: "\<forall>ev\<in>set events. 10 \<notin> set (serialized dumps ev)"
  shows "gunzip (stored_object (fst (write_events G dumps s3 part_size w now events iter_error endpoint)))
           = Some (concat (map (\<lambda>ev. serialized dumps ev @ [10]) events))
    \<and> lines_of (concat (map (\<lambda>ev. serialized dumps ev @ [10]) events)) = map (serialized dumps) events
    \<and> (\<forall>ev\<in>set events. \<exists>line. dumps ev = Inr line \<and> serialized dumps ev = encode line)
    \<and> (events = [] \<longrightarrow>
          uploaded (fst (write_events G dumps s3 part_size w now events iter_error endpoint)) =
            [(1, gz_member G [], crc32_base64 (gz_member G []))]
          \<and> gunzip (gz_member G []) = Some []
          \<and> lines_of [] = [])"
proof -
  let ?calls = "fst (write_events G dumps s3 part_size w now events iter_error endpoint)"
  let ?lines = "concat (map (\<lambda>ev. serialized dumps ev @ [10]) events)"
  from ok show ?thesis
  proof (rule write_events_done)
    fix upload_id s' etag
    let ?fed = "feed_events G dumps s3 part_size w key upload_id events (fresh_state G 1 [])"
    let ?P = "closed_payload G s'"
    assume fed: "snd ?fed = Inr s'"
      and calls: "?calls =
       CreateMultipartUpload (bucket w) key # fst ?fed
       @ [upload_call w key upload_id (part_no s') ?P,
          CompleteMultipartUpload (bucket w) key upload_id
            (part_list (parts s' @ [part_of (part_no s') etag ?P]))]"
    from calls have U: "uploaded ?calls = uploaded (fst ?fed) @ [(part_no s', ?P, crc32_base64 ?P)]"
      by (simp add: uploaded_append uploaded_upload_call)
    from feed_events_members [OF fed tracks_fresh] obtain ms cs' where
      tr: "gz_feed G (gz_open G) cs' = (gz s', buf s')"
      and bodies: "map (\<lambda>u. fst (snd u)) (uploaded (fst ?fed)) = map (gz_member G) ms"
      and data: "concat (map concat ms) @ concat cs' = concat [] @ ?lines"
      by blast
    have "stored_object ?calls = concat (map (gz_member G) (ms @ [cs']))"
      using bodies by (simp add: stored_object_def U tracks_member [OF tr])
    moreover from sound have "gunzip (concat (map (gz_member G) (ms @ [cs']))) =
        Some (concat (map concat (ms @ [cs'])))"
      unfolding gzip_sound_def by blast
    ultimately have a: "gunzip (stored_object ?calls) = Some ?lines"
      using data by simp
    have b: "lines_of ?lines = map (serialized dumps) events"
      using lines_of_lines [of "map (serialized dumps) events"] nl
      by (simp add: comp_def)
    have c: "\<forall>ev\<in>set events. \<exists>line. dumps ev = Inr line \<and> serialized dumps ev = encode line"
      using feed_events_success [OF fed] by (auto simp: serialized_def)
    have d: "events = [] \<longrightarrow> uploaded ?calls = [(1, gz_member G [], crc32_base64 (gz_member G []))]
          \<and> gunzip (gz_member G []) = Some [] \<and> lines_of [] = []"
    proof
      assume e: "events = []"
      with fed have s': "s' = fresh_state G 1 []" by simp
      have m: "closed_payload G (fresh_state G 1 []) = gz_member G []"
        by (rule tracks_member [OF tracks_fresh])
      from sound have "gunzip (concat (map (gz_member G) [[]])) = Some (concat (map concat [[]]))"
        unfolding gzip_sound_def by blast
      then have "gunzip (gz_member G []) = Some []" by simp
      with U e s' m show "uploaded ?calls = [(1, gz_member G [], crc32_base64 (gz_member G []))]
          \<and> gunzip (gz_member G []) = Some [] \<and> lines_of [] = []"
        by (simp add: state_simps lines_of_def)
    qed
    from a b c d show ?thesis by blast
  qed
qed

theorem write_events_roundtrip_witness:
  "plain_gunzip (stored_object (fst (write_events plain_gzip dumps_id DummyS3 20
      (S3Writer_init ''bkt'' []) noon [''a'', ''b''] None ''alert''))) =
     Some ([123, 34, 105, 100, 34, 58, 34, 97, 34, 125, 10]
           @ [123, 34, 105, 100, 34, 58, 34, 98, 34, 125, 10])
   \<and> lines_of ([123, 34, 105, 100, 34, 58, 34, 97, 34, 125, 10]
                @ [123, 34, 105, 100, 34, 58, 34, 98, 34, 125, 10]) =
       [serialized dumps_id ''a'', serialized dumps_id ''b'']
   \<and> uploaded (fst (write_events plain_gzip dumps_id DummyS3 20
        (S3Writer_init ''bkt'' []) noon [] None ''alert'')) =
       [(1, gz_member plain_gzip [], crc32_base64 (gz_member plain_gzip []))]
   \<and> plain_gunzip (gz_member plain_gzip []) = Some []"
proof -
  let ?w = "S3Writer_init ''bkt'' []"
  have ok: "snd (write_events plain_gzip dumps_id DummyS3 20 ?w noon evs None ''alert'') =
      Inr (object_key ?w noon ''alert'')" for evs
    by (rule DummyS3_run)
  have nl: "\<forall>ev\<in>set [''a'', ''b'']. 10 \<notin> set (serialized dumps_id ev)"
    by (simp add: dumps_id_a dumps_id_b)
  have nl0: "\<forall>ev\<in>set ([] :: string list). 10 \<notin> set (serialized dumps_id ev)"
    by simp
  from write_events_roundtrip [OF plain_gzip_sound ok nl]
    write_events_roundtrip [OF plain_gzip_sound ok nl0]
  show ?thesis
    by (simp add: dumps_id_a dumps_id_b)
qed


end
